theory Spec2Isabelle
  imports Complex_Main
begin

section \<open>World objects and the grid\<close>

text \<open>
  The environment of \<^verbatim>\<open>env.py\<close> is the class \<^verbatim>\<open>SimpleEnv\<close>, built on the grid engine
  \<^verbatim>\<open>MiniGridEnv\<close>. Exceptions are values: every operation returns the state it leaves
  behind together with either the exception raised or the value returned.
\<close>

datatype error = AssertionError | TypeError | ValueError | RuntimeError

text \<open>
  \<^verbatim>\<open>Resource(color, resource_name)\<close> is the class of the sources (a ball with a name);
  \<^verbatim>\<open>Box(color)\<close> and the walls stamped by \<^verbatim>\<open>wall_rect\<close> are the engine's objects. The chest
  is the purple box, the crafting table the blue one.
\<close>

datatype world_obj = Resource string string | Box string | Wall

record Grid =
  width :: int
  height :: int
  cells :: "int \<times> int \<Rightarrow> world_obj option"

text \<open>\<^verbatim>\<open>Grid.get(i, j)\<close> and \<^verbatim>\<open>Grid.set(i, j, v)\<close> assert that the coordinates are in range.\<close>

definition in_bounds :: "Grid \<Rightarrow> int \<times> int \<Rightarrow> bool" where
  "in_bounds g p = (0 \<le> fst p \<and> fst p < width g \<and> 0 \<le> snd p \<and> snd p < height g)"

definition Grid_get :: "Grid \<Rightarrow> int \<times> int \<Rightarrow> error + world_obj option" where
  "Grid_get g p = (if in_bounds g p then Inr (cells g p) else Inl AssertionError)"

definition Grid_set :: "Grid \<Rightarrow> int \<times> int \<Rightarrow> world_obj option \<Rightarrow> error + Grid" where
  "Grid_set g p v = (if in_bounds g p then Inr (g\<lparr>cells := (cells g)(p := v)\<rparr>) else Inl AssertionError)"

text \<open>
  The attributes the engine class owns. Before the first reset the pose is unset
  (\<^verbatim>\<open>None\<close>). \<^verbatim>\<open>env_width\<close> and \<^verbatim>\<open>env_height\<close> are \<^verbatim>\<open>self.width\<close> and \<^verbatim>\<open>self.height\<close>.
\<close>

record MiniGridEnv =
  grid :: Grid
  env_width :: int
  env_height :: int
  agent_pos :: "(int \<times> int) option"
  agent_dir :: "int option"
  step_count :: int
  max_steps :: int
  carrying :: "world_obj option"

text \<open>The attributes \<^verbatim>\<open>SimpleEnv.__init__\<close> adds.\<close>

record SimpleEnv =
  engine :: MiniGridEnv
  agent_start_pos :: "(int \<times> int) option"
  agent_start_dir :: int
  max_reward_episodes :: int
  current_episode :: int
  collected_resources_global :: "string set"
  sword_crafted :: bool
  inventory :: "string list"

definition resource_names :: "string list" where
  "resource_names = [''Iron Ore'', ''Silver Ore'', ''Platinum Ore'', ''Gold Ore'', ''Tree'',
     ''Chest'', ''Crafting Table'', ''Wall'']"

text \<open>Python's \<^verbatim>\<open>list.index\<close>: the first position, \<^verbatim>\<open>ValueError\<close> when the item is absent.\<close>

fun index_from :: "'a list \<Rightarrow> 'a \<Rightarrow> int \<Rightarrow> error + int" where
  "index_from [] x k = Inl ValueError"
| "index_from (y # ys) x k = (if y = x then Inr k else index_from ys x (k + 1))"

definition list_index :: "'a list \<Rightarrow> 'a \<Rightarrow> error + int" where
  "list_index xs x = index_from xs x 0"

definition get_entity_index :: "world_obj \<Rightarrow> error + int" where
  "get_entity_index obj =
     (case obj of
        Resource color resource_name \<Rightarrow> list_index resource_names resource_name
      | Box color \<Rightarrow>
          list_index resource_names (if color = ''purple'' then ''Chest'' else ''Crafting Table'')
      | Wall \<Rightarrow> list_index resource_names ''Wall'')"

section \<open>The sensor: \<^verbatim>\<open>get_lidar_observation\<close>\<close>

text \<open>
  NumPy's double precision arithmetic is read as arithmetic on the reals. \<^verbatim>\<open>np.arctan2\<close>
  is the angle of the vector in \<open>(-\<pi>, \<pi>]\<close> (0 for the zero vector), \<^verbatim>\<open>%\<close> on floats has
  the sign of the divisor, and \<^verbatim>\<open>np.linspace(0, 2 * np.pi, 8, endpoint=False)\<close> is the
  list of the multiples of \<open>2\<pi>/8\<close>.
\<close>

definition arctan2 :: "real \<Rightarrow> real \<Rightarrow> real" where
  "arctan2 y x =
     (if 0 < x then arctan (y / x)
      else if x < 0 then (if 0 \<le> y then arctan (y / x) + pi else arctan (y / x) - pi)
      else if 0 < y then pi / 2
      else if y < 0 then - (pi / 2)
      else 0)"

definition py_fmod :: "real \<Rightarrow> real \<Rightarrow> real" where
  "py_fmod x m = x - m * of_int \<lfloor>x / m\<rfloor>"

definition angles :: "real list" where
  "angles = map (\<lambda>k. real k * (2 * pi / 8)) [0..<8]"

definition norm2 :: "int \<times> int \<Rightarrow> real" where
  "norm2 v = sqrt (of_int ((fst v)\<^sup>2 + (snd v)\<^sup>2))"

definition angle_diff :: "real \<Rightarrow> int \<times> int \<Rightarrow> real" where
  "angle_diff angle v =
     py_fmod (arctan2 (of_int (snd v)) (of_int (fst v)) - angle + pi) (2 * pi) - pi"

definition in_beam :: "real \<Rightarrow> int \<times> int \<Rightarrow> bool" where
  "in_beam angle v = (\<bar>angle_diff angle v\<bar> \<le> pi / 8)"

text \<open>\<^verbatim>\<open>dist_to_obj < min_dist\<close>, where \<^verbatim>\<open>min_dist\<close> starts as infinity (\<open>None\<close>).\<close>

definition closer :: "real \<Rightarrow> real option \<Rightarrow> bool" where
  "closer d min_dist = (case min_dist of None \<Rightarrow> True | Some m \<Rightarrow> d < m)"

text \<open>
  The two nested loops over \<^verbatim>\<open>range(self.grid.width)\<close> and \<^verbatim>\<open>range(self.grid.height)\<close>:
  \<open>x\<close> is the outer variable, \<open>y\<close> the inner one.
\<close>

definition scan_order :: "Grid \<Rightarrow> (int \<times> int) list" where
  "scan_order g = [(x, y). x \<leftarrow> [0..width g - 1], y \<leftarrow> [0..height g - 1]]"

text \<open>
  One beam: the loop body over the cells still to visit, with the running pair
  \<^verbatim>\<open>(min_dist, closest_entity_idx)\<close>. Subtracting from an unset agent position raises
  \<^verbatim>\<open>TypeError\<close>; \<^verbatim>\<open>get_entity_index\<close> is called only for a cell that becomes the new
  minimum, and may raise \<^verbatim>\<open>ValueError\<close>.
\<close>

fun lidar_beam ::
  "Grid \<Rightarrow> (int \<times> int) option \<Rightarrow> real \<Rightarrow> (int \<times> int) list \<Rightarrow> real option \<times> int
     \<Rightarrow> error + (real option \<times> int)" where
  "lidar_beam g ap angle [] acc = Inr acc"
| "lidar_beam g ap angle (c # cs) acc =
     (case cells g c of
        None \<Rightarrow> lidar_beam g ap angle cs acc
      | Some obj \<Rightarrow>
          (case ap of
             None \<Rightarrow> Inl TypeError
           | Some a \<Rightarrow>
               (let vec_to_obj = (fst c - fst a, snd c - snd a);
                    dist_to_obj = norm2 vec_to_obj
                in if in_beam angle vec_to_obj \<and> closer dist_to_obj (fst acc)
                   then (case get_entity_index obj of
                           Inl e \<Rightarrow> Inl e
                         | Inr idx \<Rightarrow> lidar_beam g ap angle cs (Some dist_to_obj, idx))
                   else lidar_beam g ap angle cs acc)))"

text \<open>The row of one beam: zero everywhere but in the slot of the closest entity.\<close>

definition lidar_row :: "Grid \<Rightarrow> real option \<times> int \<Rightarrow> real list" where
  "lidar_row g acc =
     (if snd acc \<noteq> - 1
      then (replicate (length resource_names) 0)
             [nat (snd acc) := (case fst acc of Some d \<Rightarrow> d | None \<Rightarrow> 0) / of_int (width g)]
      else replicate (length resource_names) 0)"

fun lidar_rows :: "Grid \<Rightarrow> (int \<times> int) option \<Rightarrow> real list \<Rightarrow> error + real list list" where
  "lidar_rows g ap [] = Inr []"
| "lidar_rows g ap (angle # rest) =
     (case lidar_beam g ap angle (scan_order g) (None, - 1) of
        Inl e \<Rightarrow> Inl e
      | Inr acc \<Rightarrow>
          (case lidar_rows g ap rest of
             Inl e \<Rightarrow> Inl e
           | Inr rows \<Rightarrow> Inr (lidar_row g acc # rows)))"

definition get_lidar_observation :: "SimpleEnv \<Rightarrow> error + real list list" where
  "get_lidar_observation s = lidar_rows (grid (engine s)) (agent_pos (engine s)) angles"

section \<open>The inventory observation and \<^verbatim>\<open>get_obs\<close>\<close>

fun inventory_counts :: "string list \<Rightarrow> real list \<Rightarrow> real list" where
  "inventory_counts [] inventory_obs = inventory_obs"
| "inventory_counts (item # items) inventory_obs =
     (if item \<in> set resource_names
      then (case list_index resource_names item of
              Inr index \<Rightarrow>
                inventory_counts items (inventory_obs[nat index := inventory_obs ! nat index + 1])
            | Inl e \<Rightarrow> inventory_counts items inventory_obs)
      else inventory_counts items inventory_obs)"

definition get_inventory_observation :: "SimpleEnv \<Rightarrow> real list" where
  "get_inventory_observation s =
     inventory_counts (inventory s) (replicate (length resource_names) 0)"

definition get_obs :: "SimpleEnv \<Rightarrow> error + real list" where
  "get_obs s =
     (case get_lidar_observation s of
        Inl e \<Rightarrow> Inl e
      | Inr lidar_obs \<Rightarrow> Inr (concat lidar_obs @ get_inventory_observation s))"

section \<open>The step: \<^verbatim>\<open>SimpleEnv.step\<close>\<close>

text \<open>
  The engine's table \<^verbatim>\<open>DIR_TO_VEC\<close> of the four cardinal unit vectors (east, south, west,
  north; \<open>y\<close> grows downwards) and its properties \<^verbatim>\<open>dir_vec\<close> and \<^verbatim>\<open>front_pos\<close>.
\<close>

definition DIR_TO_VEC :: "(int \<times> int) list" where
  "DIR_TO_VEC = [(1, 0), (0, 1), (- 1, 0), (0, - 1)]"

definition dir_vec :: "MiniGridEnv \<Rightarrow> error + int \<times> int" where
  "dir_vec w =
     (case agent_dir w of
        None \<Rightarrow> Inl TypeError
      | Some d \<Rightarrow> if 0 \<le> d \<and> d < 4 then Inr (DIR_TO_VEC ! nat d) else Inl AssertionError)"

definition front_pos :: "MiniGridEnv \<Rightarrow> error + int \<times> int" where
  "front_pos w =
     (case dir_vec w of
        Inl e \<Rightarrow> Inl e
      | Inr v \<Rightarrow>
          (case agent_pos w of
             None \<Rightarrow> Inl TypeError
           | Some p \<Rightarrow> Inr (fst p + fst v, snd p + snd v)))"

text \<open>\<^verbatim>\<open>fwd_pos = self.front_pos; fwd_cell = self.grid.get(*fwd_pos)\<close>\<close>

definition front_cell :: "MiniGridEnv \<Rightarrow> error + (int \<times> int) \<times> world_obj option" where
  "front_cell w =
     (case front_pos w of
        Inl e \<Rightarrow> Inl e
      | Inr fwd_pos \<Rightarrow>
          (case Grid_get (grid w) fwd_pos of
             Inl e \<Rightarrow> Inl e
           | Inr fwd_cell \<Rightarrow> Inr (fwd_pos, fwd_cell)))"

text \<open>\<^verbatim>\<open>isinstance(fwd_cell, Box) and fwd_cell.color == c\<close>, and \<^verbatim>\<open>isinstance(fwd_cell, Resource)\<close>.\<close>

definition is_Box :: "world_obj option \<Rightarrow> string \<Rightarrow> bool" where
  "is_Box fwd_cell c = (case fwd_cell of Some (Box color) \<Rightarrow> color = c | _ \<Rightarrow> False)"

definition as_Resource :: "world_obj option \<Rightarrow> string option" where
  "as_Resource fwd_cell =
     (case fwd_cell of Some (Resource color resource_name) \<Rightarrow> Some resource_name | _ \<Rightarrow> None)"

text \<open>
  What a step returns: the observation, the reward, \<^verbatim>\<open>terminated\<close> and \<^verbatim>\<open>truncated\<close> (the
  info dictionary is always empty). The rewards of the custom branches are the integers
  \<open>-1\<close>, \<open>-2\<close>, \<open>0\<close>, \<open>49\<close> and \<open>999\<close>; the engine may add a float.
\<close>

type_synonym step_result = "real list \<times> real \<times> bool \<times> bool"

text \<open>
  \<^verbatim>\<open>super().step(action)\<close> belongs to the grid engine, which is not part of the sources.
  It is a parameter: a function on the engine's attributes that returns them updated,
  with the exception it raised or its reward, \<^verbatim>\<open>terminated\<close> and \<^verbatim>\<open>truncated\<close>. It cannot
  see the attributes of \<^verbatim>\<open>SimpleEnv\<close>.
\<close>

type_synonym engine_step = "int \<Rightarrow> MiniGridEnv \<Rightarrow> MiniGridEnv \<times> (error + real \<times> bool \<times> bool)"

text \<open>\<^verbatim>\<open>return self.get_obs(), reward, terminated, truncated, {}\<close>\<close>

definition return_obs ::
  "SimpleEnv \<Rightarrow> real \<Rightarrow> bool \<Rightarrow> bool \<Rightarrow> SimpleEnv \<times> (error + step_result)" where
  "return_obs s reward terminated truncated =
     (s, case get_obs s of
           Inl e \<Rightarrow> Inl e
         | Inr obs \<Rightarrow> Inr (obs, reward, terminated, truncated))"

text \<open>The fall-through at the end of \<^verbatim>\<open>step\<close>.\<close>

definition super_step ::
  "engine_step \<Rightarrow> int \<Rightarrow> SimpleEnv \<Rightarrow> real \<Rightarrow> SimpleEnv \<times> (error + step_result)" where
  "super_step E action s reward =
     (case E action (engine s) of
        (w, Inl e) \<Rightarrow> (s\<lparr>engine := w\<rparr>, Inl e)
      | (w, Inr (reward_super, terminated, truncated)) \<Rightarrow>
          return_obs (s\<lparr>engine := w\<rparr>) (reward + reward_super) terminated truncated)"

text \<open>
  The live definition of \<^verbatim>\<open>step\<close> (the second one of the class; it replaces the first).
  The action values are those of \<^verbatim>\<open>SimpleEnv.Actions\<close>: toggle is 3, craft\_sword is 4,
  open\_chest is 5.
\<close>

definition step :: "engine_step \<Rightarrow> int \<Rightarrow> SimpleEnv \<Rightarrow> SimpleEnv \<times> (error + step_result)" where
  "step E action s =
     (let reward = - 1 in
      if action = 4 then
        (case front_cell (engine s) of
           Inl e \<Rightarrow> (s, Inl e)
         | Inr (fwd_pos, fwd_cell) \<Rightarrow>
             if is_Box fwd_cell ''blue'' then
               (if ''Tree'' \<in> set (inventory s) \<and> ''Iron Ore'' \<in> set (inventory s)
                   \<and> \<not> sword_crafted s
                then return_obs
                       (s\<lparr>inventory :=
                            remove1 ''Iron Ore'' (remove1 ''Tree'' (inventory s)) @ [''Iron Sword''],
                          sword_crafted := True\<rparr>)
                       (if current_episode s < max_reward_episodes s then reward + 50 else reward)
                       False False
                else return_obs s (reward + - 1) False False)
             else super_step E action s reward)
      else if action = 5 then
        (case front_cell (engine s) of
           Inl e \<Rightarrow> (s, Inl e)
         | Inr (fwd_pos, fwd_cell) \<Rightarrow>
             if is_Box fwd_cell ''purple'' then
               (if ''Iron Sword'' \<in> set (inventory s)
                then return_obs (s\<lparr>inventory := inventory s @ [''Treasure'']\<rparr>)
                       (reward + 1000) True False
                else return_obs s (reward + - 1) False False)
             else super_step E action s reward)
      else if action = 3 then
        (case front_cell (engine s) of
           Inl e \<Rightarrow> (s, Inl e)
         | Inr (fwd_pos, fwd_cell) \<Rightarrow>
             (case as_Resource fwd_cell of
                Some resource_name \<Rightarrow>
                  if resource_name \<notin> collected_resources_global s
                  then (case Grid_set (grid (engine s)) fwd_pos None of
                          Inl e \<Rightarrow>
                            (s\<lparr>collected_resources_global :=
                                 insert resource_name (collected_resources_global s),
                               inventory := inventory s @ [resource_name]\<rparr>, Inl e)
                        | Inr g \<Rightarrow>
                            return_obs
                              (s\<lparr>collected_resources_global :=
                                   insert resource_name (collected_resources_global s),
                                 inventory := inventory s @ [resource_name],
                                 engine := (engine s)\<lparr>grid := g\<rparr>\<rparr>)
                              (reward + 1) False False)
                  else return_obs s (reward + - 1) False False
              | None \<Rightarrow> super_step E action s reward))
      else super_step E action s reward)"

section \<open>Building the world: \<^verbatim>\<open>_gen_grid\<close> and \<^verbatim>\<open>reset\<close>\<close>

text \<open>
  Modelled from the spec: the engine's grid allocation, wall stamping and random
  placement primitive (\<^verbatim>\<open>Grid\<close>, \<^verbatim>\<open>wall_rect\<close>, \<^verbatim>\<open>place_obj\<close>, \<^verbatim>\<open>place_agent\<close>, \<^verbatim>\<open>can_overlap\<close>),
  which the sources call and do not define. The random source is the list of the raw
  numbers it delivers: \<^verbatim>\<open>_rand_int(lo, hi)\<close> raises \<^verbatim>\<open>ValueError\<close> on an empty range and
  otherwise maps the next number into \<open>[lo, hi)\<close>. Placement draws a cell of the rectangle
  from \<^verbatim>\<open>top\<close> to the grid's far corner and rejects it while it is occupied or is the agent's
  cell; a list that runs out while the loop is still rejecting gives \<open>None\<close>: the call
  has not returned.
\<close>

definition new_Grid :: "int \<Rightarrow> int \<Rightarrow> Grid" where
  "new_Grid w h = \<lparr>width = w, height = h, cells = (\<lambda>p. None)\<rparr>"

definition horz_wall :: "int \<Rightarrow> int \<Rightarrow> int \<Rightarrow> Grid \<Rightarrow> Grid" where
  "horz_wall x y len g =
     fold (\<lambda>i g. g\<lparr>cells := (cells g)((x + i, y) := Some Wall)\<rparr>) [0..len - 1] g"

definition vert_wall :: "int \<Rightarrow> int \<Rightarrow> int \<Rightarrow> Grid \<Rightarrow> Grid" where
  "vert_wall x y len g =
     fold (\<lambda>j g. g\<lparr>cells := (cells g)((x, y + j) := Some Wall)\<rparr>) [0..len - 1] g"

definition wall_rect :: "int \<Rightarrow> int \<Rightarrow> int \<Rightarrow> int \<Rightarrow> Grid \<Rightarrow> Grid" where
  "wall_rect x y w h g =
     vert_wall (x + w - 1) y h (vert_wall x y h (horz_wall x (y + h - 1) w (horz_wall x y w g)))"

definition can_overlap :: "world_obj \<Rightarrow> bool" where
  "can_overlap obj = False"

fun place_loop ::
  "Grid \<Rightarrow> (int \<times> int) option \<Rightarrow> int \<times> int \<Rightarrow> nat list
     \<Rightarrow> (error + (int \<times> int) \<times> nat list) option" where
  "place_loop g ap tp ds =
     (if min (fst tp + width g) (width g) \<le> fst tp then Some (Inl ValueError)
      else (case ds of
              [] \<Rightarrow> None
            | dx # ds1 \<Rightarrow>
                if min (snd tp + height g) (height g) \<le> snd tp then Some (Inl ValueError)
                else (case ds1 of
                        [] \<Rightarrow> None
                      | dy # ds2 \<Rightarrow>
                          (let pos =
                                 (fst tp + int dx mod (min (fst tp + width g) (width g) - fst tp),
                                  snd tp + int dy mod (min (snd tp + height g) (height g) - snd tp))
                           in if cells g pos \<noteq> None then place_loop g ap tp ds2
                              else if ap = Some pos then place_loop g ap tp ds2
                              else Some (Inr (pos, ds2))))))"

definition place_obj ::
  "MiniGridEnv \<Rightarrow> world_obj option \<Rightarrow> int \<times> int \<Rightarrow> nat list
     \<Rightarrow> (MiniGridEnv \<times> (error + (int \<times> int) \<times> nat list)) option" where
  "place_obj w obj tp ds =
     (case place_loop (grid w) (agent_pos w) (max (fst tp) 0, max (snd tp) 0) ds of
        None \<Rightarrow> None
      | Some (Inl e) \<Rightarrow> Some (w, Inl e)
      | Some (Inr (pos, ds')) \<Rightarrow>
          Some (w\<lparr>grid := (grid w)\<lparr>cells := (cells (grid w))(pos := obj)\<rparr>\<rparr>, Inr (pos, ds')))"

definition place_agent ::
  "MiniGridEnv \<Rightarrow> nat list \<Rightarrow> (MiniGridEnv \<times> (error + nat list)) option" where
  "place_agent w ds =
     (case place_obj (w\<lparr>agent_pos := Some (- 1, - 1)\<rparr>) None (0, 0) ds of
        None \<Rightarrow> None
      | Some (w1, Inl e) \<Rightarrow> Some (w1, Inl e)
      | Some (w1, Inr (pos, ds1)) \<Rightarrow>
          (case ds1 of
             [] \<Rightarrow> None
           | d # ds2 \<Rightarrow> Some (w1\<lparr>agent_pos := Some pos, agent_dir := Some (int d mod 4)\<rparr>, Inr ds2)))"

text \<open>The seven \<^verbatim>\<open>place_obj\<close> calls of \<^verbatim>\<open>_gen_grid\<close>, in order, each with its \<^verbatim>\<open>top\<close>.\<close>

definition gen_objects :: "(world_obj \<times> (int \<times> int)) list" where
  "gen_objects =
     [(Resource ''red'' ''Iron Ore'', (1, 1)),
      (Resource ''grey'' ''Silver Ore'', (2, 1)),
      (Resource ''purple'' ''Platinum Ore'', (3, 1)),
      (Resource ''yellow'' ''Gold Ore'', (4, 1)),
      (Resource ''green'' ''Tree'', (5, 1)),
      (Box ''purple'', (6, 1)),
      (Box ''blue'', (7, 1))]"

fun place_objs ::
  "MiniGridEnv \<Rightarrow> (world_obj \<times> (int \<times> int)) list \<Rightarrow> nat list
     \<Rightarrow> (MiniGridEnv \<times> (error + nat list)) option" where
  "place_objs w [] ds = Some (w, Inr ds)"
| "place_objs w ((obj, tp) # rest) ds =
     (case place_obj w (Some obj) tp ds of
        None \<Rightarrow> None
      | Some (w1, Inl e) \<Rightarrow> Some (w1, Inl e)
      | Some (w1, Inr (pos, ds1)) \<Rightarrow> place_objs w1 rest ds1)"

text \<open>
  The comprehension of \<^verbatim>\<open>_gen_grid\<close> over the interior cells: \<open>x\<close> outer, \<open>y\<close> inner.
\<close>

definition empty_positions :: "Grid \<Rightarrow> int \<Rightarrow> int \<Rightarrow> (int \<times> int) list" where
  "empty_positions g w h =
     [(x, y). x \<leftarrow> [1..w - 2], y \<leftarrow> [1..h - 2], cells g (x, y) = None]"

text \<open>
  The agent's part of \<^verbatim>\<open>_gen_grid\<close>, after the objects are placed. The \<^verbatim>\<open>Grid\<close>
  constructor asserts that both dimensions are at least 3.
\<close>

definition gen_agent :: "SimpleEnv \<Rightarrow> int \<Rightarrow> int \<Rightarrow> nat list \<Rightarrow> (SimpleEnv \<times> (error + nat list)) option" where
  "gen_agent s w h ds =
     (case agent_start_pos s of
        Some p \<Rightarrow>
          (case Grid_get (grid (engine s)) p of
             Inl e \<Rightarrow> Some (s, Inl e)
           | Inr start_cell \<Rightarrow>
               (case (case start_cell of
                        Some obj \<Rightarrow>
                          if \<not> can_overlap obj
                          then (case empty_positions (grid (engine s)) w h of
                                  [] \<Rightarrow> Inl RuntimeError
                                | q # qs \<Rightarrow> Inr (s\<lparr>agent_start_pos := Some q\<rparr>))
                          else Inr s
                      | None \<Rightarrow> Inr s) of
                  Inl e \<Rightarrow> Some (s, Inl e)
                | Inr s1 \<Rightarrow>
                    Some (s1\<lparr>engine := (engine s1)\<lparr>agent_pos := agent_start_pos s1,
                                                   agent_dir := Some (agent_start_dir s1)\<rparr>\<rparr>,
                          Inr ds)))
      | None \<Rightarrow>
          (case place_agent (engine s) ds of
             None \<Rightarrow> None
           | Some (w1, Inl e) \<Rightarrow> Some (s\<lparr>engine := w1\<rparr>, Inl e)
           | Some (w1, Inr ds1) \<Rightarrow> Some (s\<lparr>engine := w1\<rparr>, Inr ds1)))"

definition gen_grid :: "SimpleEnv \<Rightarrow> int \<Rightarrow> int \<Rightarrow> nat list \<Rightarrow> (SimpleEnv \<times> (error + nat list)) option" where
  "gen_grid s w h ds =
     (if w < 3 \<or> h < 3 then Some (s, Inl AssertionError)
      else (case place_objs ((engine s)\<lparr>grid := wall_rect 0 0 w h (new_Grid w h)\<rparr>) gen_objects ds of
              None \<Rightarrow> None
            | Some (w1, Inl e) \<Rightarrow> Some (s\<lparr>engine := w1\<rparr>, Inl e)
            | Some (w1, Inr ds1) \<Rightarrow> gen_agent (s\<lparr>engine := w1\<rparr>) w h ds1))"

text \<open>
  \<^verbatim>\<open>reset\<close>: a fresh random source (the argument), the per-episode attributes cleared,
  the episode counted, the world rebuilt, the agent placed again by \<^verbatim>\<open>place_agent\<close>, the
  step counter zeroed, and the observation returned.
\<close>

definition reset :: "nat list \<Rightarrow> SimpleEnv \<Rightarrow> (SimpleEnv \<times> (error + real list)) option" where
  "reset ds s =
     (let s1 = s\<lparr>inventory := [], sword_crafted := False,
                 current_episode := current_episode s + 1\<rparr>
      in case gen_grid s1 (env_width (engine s1)) (env_height (engine s1)) ds of
           None \<Rightarrow> None
         | Some (s2, Inl e) \<Rightarrow> Some (s2, Inl e)
         | Some (s2, Inr ds2) \<Rightarrow>
             (case place_agent (engine s2) ds2 of
                None \<Rightarrow> None
              | Some (w3, Inl e) \<Rightarrow> Some (s2\<lparr>engine := w3\<rparr>, Inl e)
              | Some (w3, Inr ds3) \<Rightarrow>
                  (let s4 = s2\<lparr>engine := w3\<lparr>step_count := 0\<rparr>\<rparr>
                   in Some (s4, get_obs s4))))"

text \<open>
  \<^verbatim>\<open>SimpleEnv.__init__\<close> with its keyword arguments; the engine's constructor allocates an
  empty grid (and refuses a size below 3), leaves the pose unset and carries nothing.
\<close>

record config =
  grid_size :: int
  cfg_agent_start_pos :: "(int \<times> int) option"
  cfg_agent_start_dir :: int
  cfg_max_steps :: "int option"
  cfg_max_reward_episodes :: int

definition default_config :: config where
  "default_config =
     \<lparr>grid_size = 12, cfg_agent_start_pos = Some (1, 1), cfg_agent_start_dir = 0,
      cfg_max_steps = None, cfg_max_reward_episodes = 20\<rparr>"

definition init :: "config \<Rightarrow> error + SimpleEnv" where
  "init c =
     (if grid_size c < 3 then Inl AssertionError
      else Inr
        \<lparr>engine =
           \<lparr>grid = new_Grid (grid_size c) (grid_size c), env_width = grid_size c, env_height = grid_size c,
            agent_pos = None, agent_dir = None, step_count = 0,
            max_steps = (case cfg_max_steps c of None \<Rightarrow> 4 * (grid_size c)\<^sup>2 | Some m \<Rightarrow> m),
            carrying = None\<rparr>,
         agent_start_pos = cfg_agent_start_pos c,
         agent_start_dir = cfg_agent_start_dir c,
         max_reward_episodes = cfg_max_reward_episodes c,
         current_episode = 0,
         collected_resources_global = {},
         sword_crafted = False,
         inventory = []\<rparr>)"

section \<open>Runs\<close>

text \<open>
  The states a process passes through: from one state, any number of \<^verbatim>\<open>step\<close> and
  \<^verbatim>\<open>reset\<close> calls, whatever they return or raise (a caller may catch an exception and go
  on with the object as the call left it).
\<close>

inductive reach :: "engine_step \<Rightarrow> SimpleEnv \<Rightarrow> SimpleEnv \<Rightarrow> bool" for E :: engine_step and s :: SimpleEnv where
  reach_refl: "reach E s s"
| reach_step: "reach E s t \<Longrightarrow> reach E s (fst (step E action t))"
| reach_reset: "reach E s t \<Longrightarrow> reset ds t = Some (t', out) \<Longrightarrow> reach E s t'"

definition reachable :: "engine_step \<Rightarrow> SimpleEnv \<Rightarrow> bool" where
  "reachable E s = (\<exists>c s0. init c = Inr s0 \<and> reach E s0 s)"

section \<open>Invariants of a run\<close>

text \<open>
  The objects \<^verbatim>\<open>_gen_grid\<close> creates: the walls and the seven placed objects. A world is in
  order when nothing else is on the grid or in the agent's hand, and an engine step is
  admissible when it keeps the world in order (it may move, remove or put back objects,
  not invent them).
\<close>

definition obj_ok :: "world_obj \<Rightarrow> bool" where
  "obj_ok obj = (obj = Wall \<or> obj \<in> fst ` set gen_objects)"

definition grid_ok :: "Grid \<Rightarrow> bool" where
  "grid_ok g = (\<forall>p obj. cells g p = Some obj \<longrightarrow> obj_ok obj)"

definition world_ok :: "MiniGridEnv \<Rightarrow> bool" where
  "world_ok w = (grid_ok (grid w) \<and> (\<forall>obj. carrying w = Some obj \<longrightarrow> obj_ok obj))"

definition engine_ok :: "engine_step \<Rightarrow> bool" where
  "engine_ok E = (\<forall>action w. world_ok w \<longrightarrow> world_ok (fst (E action w)))"

text \<open>
  The ledger's invariant: no name of \<^verbatim>\<open>resource_names\<close> occurs twice, each such name in
  the ledger is in the global record, and the sword is in the ledger only when the flag
  is set.
\<close>

definition ledger_ok :: "SimpleEnv \<Rightarrow> bool" where
  "ledger_ok s =
     ((\<forall>k\<in>set resource_names. count_list (inventory s) k \<le> 1)
      \<and> (\<forall>k\<in>set (inventory s). k \<in> set resource_names \<longrightarrow> k \<in> collected_resources_global s))"

definition sword_ok :: "SimpleEnv \<Rightarrow> bool" where
  "sword_ok s = (''Iron Sword'' \<in> set (inventory s) \<longrightarrow> sword_crafted s)"

text \<open>Two states with the same ledger, flag, global record and episode counters.\<close>

definition ledger_eq :: "SimpleEnv \<Rightarrow> SimpleEnv \<Rightarrow> bool" where
  "ledger_eq s t =
     (inventory t = inventory s \<and> sword_crafted t = sword_crafted s
      \<and> collected_resources_global t = collected_resources_global s
      \<and> current_episode t = current_episode s
      \<and> max_reward_episodes t = max_reward_episodes s)"

text \<open>What \<^verbatim>\<open>step\<close> tests before it crafts, and what it tests before it opens the chest.\<close>

definition faces :: "SimpleEnv \<Rightarrow> world_obj \<Rightarrow> bool" where
  "faces s obj = (\<exists>p. front_cell (engine s) = Inr (p, Some obj))"

definition craft_ready :: "SimpleEnv \<Rightarrow> bool" where
  "craft_ready s =
     (faces s (Box ''blue'') \<and> ''Tree'' \<in> set (inventory s) \<and> ''Iron Ore'' \<in> set (inventory s)
      \<and> \<not> sword_crafted s)"

section \<open>An engine and a run\<close>

text \<open>
  Modelled from the spec: the collaborating grid engine's step (\<^verbatim>\<open>MiniGridEnv.step\<close> of the
  \<^verbatim>\<open>minigrid\<close> package the sources import): it counts the step, reads the cell in front,
  turns the agent by a quarter or moves it forward unless the cell blocks, picks up,
  drops or toggles an object, and signals truncation once the step count reaches
  \<^verbatim>\<open>max_steps\<close>. The engine reads the raw action value by its own enumeration (0 left,
  1 right, 2 forward, 3 pick up, 4 drop, 5 toggle, 6 done). It is one admissible engine:
  the theorems below hold for every admissible one, and this one makes the runs concrete.
\<close>

definition can_pickup :: "world_obj \<Rightarrow> bool" where
  "can_pickup obj = (case obj of Wall \<Rightarrow> False | _ \<Rightarrow> True)"

definition minigrid_step :: engine_step where
  "minigrid_step action w =
     (let w1 = w\<lparr>step_count := step_count w + 1\<rparr> in
      case front_cell w1 of
        Inl e \<Rightarrow> (w1, Inl e)
      | Inr (fwd_pos, fwd_cell) \<Rightarrow>
          (case (if action = 0 then
                   Inr (w1\<lparr>agent_dir :=
                          map_option (\<lambda>d. if d - 1 < 0 then d - 1 + 4 else d - 1) (agent_dir w1)\<rparr>)
                 else if action = 1 then
                   Inr (w1\<lparr>agent_dir := map_option (\<lambda>d. (d + 1) mod 4) (agent_dir w1)\<rparr>)
                 else if action = 2 then
                   Inr (case fwd_cell of
                          None \<Rightarrow> w1\<lparr>agent_pos := Some fwd_pos\<rparr>
                        | Some obj \<Rightarrow> if can_overlap obj then w1\<lparr>agent_pos := Some fwd_pos\<rparr> else w1)
                 else if action = 3 then
                   Inr (case fwd_cell of
                          None \<Rightarrow> w1
                        | Some obj \<Rightarrow>
                            if can_pickup obj \<and> carrying w1 = None
                            then w1\<lparr>carrying := Some obj,
                                    grid := (grid w1)\<lparr>cells := (cells (grid w1))(fwd_pos := None)\<rparr>\<rparr>
                            else w1)
                 else if action = 4 then
                   Inr (if fwd_cell = None \<and> carrying w1 \<noteq> None
                        then w1\<lparr>grid := (grid w1)\<lparr>cells := (cells (grid w1))(fwd_pos := carrying w1)\<rparr>,
                                carrying := None\<rparr>
                        else w1)
                 else if action = 5 then
                   Inr (case fwd_cell of
                          Some (Box color) \<Rightarrow>
                            w1\<lparr>grid := (grid w1)\<lparr>cells := (cells (grid w1))(fwd_pos := None)\<rparr>\<rparr>
                        | _ \<Rightarrow> w1)
                 else if action = 6 then Inr w1
                 else Inl ValueError) of
             Inl e \<Rightarrow> (w1, Inl e)
           | Inr w2 \<Rightarrow> (w2, Inr (0, False, max_steps w2 \<le> step_count w2))))"

text \<open>
  A run on the default configuration. The draws put the iron ore at (5, 5), the silver
  at (2, 2), the platinum at (3, 3), the gold at (4, 4), the tree at (6, 6), the chest at
  (6, 4) and the crafting table at (7, 5); \<^verbatim>\<open>place_agent\<close> then draws the cell (6, 5) and
  a direction.
\<close>

definition demo_draws :: "nat \<Rightarrow> nat list" where
  "demo_draws d = [4, 4, 0, 1, 0, 2, 0, 3, 1, 5, 0, 3, 0, 4, 6, 5, d]"

definition demo_grid :: Grid where
  "demo_grid = (wall_rect 0 0 12 12 (new_Grid 12 12))\<lparr>cells :=
     (cells (wall_rect 0 0 12 12 (new_Grid 12 12)))
       ((5, 5) := Some (Resource ''red'' ''Iron Ore''),
        (2, 2) := Some (Resource ''grey'' ''Silver Ore''),
        (3, 3) := Some (Resource ''purple'' ''Platinum Ore''),
        (4, 4) := Some (Resource ''yellow'' ''Gold Ore''),
        (6, 6) := Some (Resource ''green'' ''Tree''),
        (6, 4) := Some (Box ''purple''),
        (7, 5) := Some (Box ''blue''))\<rparr>"

text \<open>
  The states of the run, all on the default configuration: the grid, the direction, the
  step count, the episode, the global record, the flag and the ledger vary; the agent
  stands on (6, 5).
\<close>

definition demo ::
  "Grid \<Rightarrow> (int \<times> int) option \<Rightarrow> int option \<Rightarrow> int \<Rightarrow> int \<Rightarrow> string set \<Rightarrow> bool \<Rightarrow> string list
     \<Rightarrow> SimpleEnv" where
  "demo g pos dir steps episode record crafted ledger =
     \<lparr>engine =
        \<lparr>grid = g, env_width = 12, env_height = 12, agent_pos = pos, agent_dir = dir,
         step_count = steps, max_steps = 576, carrying = None\<rparr>,
      agent_start_pos = Some (1, 1),
      agent_start_dir = 0,
      max_reward_episodes = 20,
      current_episode = episode,
      collected_resources_global = record,
      sword_crafted = crafted,
      inventory = ledger\<rparr>"

definition demo_init :: SimpleEnv where
  "demo_init = demo (new_Grid 12 12) None None 0 0 {} False []"

definition clear_cell :: "int \<times> int \<Rightarrow> Grid \<Rightarrow> Grid" where
  "clear_cell p g = g\<lparr>cells := (cells g)(p := None)\<rparr>"

section \<open>The sensor's tests in integer arithmetic, and what a beam encodes\<close>

text \<open>
  The unit directions of the eight beams, scaled to integers: beam \<open>k\<close> points along
  \<open>beam_dirs ! k\<close> (\<open>y\<close> grows downwards). For an integer vector \<open>v\<close>, \<open>p\<close> is its component
  along the beam and \<open>q\<close> its component across it (both scaled alike); \<open>v\<close> lies within
  \<open>\<pi>/8\<close> of the beam exactly when \<open>0 \<le> p\<close> and \<open>(p + |q|)\<^sup>2 \<le> 2 p\<^sup>2\<close>, because
  \<open>tan (\<pi>/8) = \<surd>2 - 1\<close>. Theorem \<open>in_beam_iff\<close> below proves that this is the test
  \<^verbatim>\<open>abs(angle_diff) <= np.pi / 8\<close> of the source.
\<close>

definition beam_dirs :: "(int \<times> int) list" where
  "beam_dirs = [(1, 0), (1, 1), (0, 1), (- 1, 1), (- 1, 0), (- 1, - 1), (0, - 1), (1, - 1)]"

definition beam_test :: "nat \<Rightarrow> int \<times> int \<Rightarrow> bool" where
  "beam_test k v =
     (if v = (0, 0) then k = 0
      else (let c = fst (beam_dirs ! k); s = snd (beam_dirs ! k);
                p = fst v * c + snd v * s;
                q = snd v * c - fst v * s
            in 0 \<le> p \<and> (p + \<bar>q\<bar>)\<^sup>2 \<le> 2 * p\<^sup>2))"

text \<open>
  A cell qualifies for a beam when it holds an object within the beam's angular window;
  \<open>dist_to\<close> is \<^verbatim>\<open>dist_to_obj\<close>. \<open>first_nearest\<close> is the first cell of an enumeration among
  the qualifying cells at minimal distance.
\<close>

definition hits :: "Grid \<Rightarrow> int \<times> int \<Rightarrow> real \<Rightarrow> int \<times> int \<Rightarrow> bool" where
  "hits g a angle c = (cells g c \<noteq> None \<and> in_beam angle (fst c - fst a, snd c - snd a))"

definition dist_to :: "int \<times> int \<Rightarrow> int \<times> int \<Rightarrow> real" where
  "dist_to a c = norm2 (fst c - fst a, snd c - snd a)"

definition first_nearest ::
  "Grid \<Rightarrow> int \<times> int \<Rightarrow> real \<Rightarrow> (int \<times> int) list \<Rightarrow> (int \<times> int) option" where
  "first_nearest g a angle order =
     List.find (\<lambda>c. hits g a angle c
                  \<and> (\<forall>c'\<in>set order. hits g a angle c' \<longrightarrow> dist_to a c \<le> dist_to a c')) order"

text \<open>
  The order in which the source's two loops visit the cells, as a relation: column by
  column (\<open>x\<close> first), and within a column from the top (\<open>y\<close>).
\<close>

definition scan_before :: "int \<times> int \<Rightarrow> int \<times> int \<Rightarrow> bool" where
  "scan_before c c' = (fst c < fst c' \<or> (fst c = fst c' \<and> snd c < snd c'))"

text \<open>
  The enumeration the spec names for the tie-break, in the spec's words "the fixed
  row-major enumeration" of the grid cells: row by row (\<open>y\<close> first), and within a row from
  the left (\<open>x\<close>).
\<close>

definition row_major :: "Grid \<Rightarrow> (int \<times> int) list" where
  "row_major g = [(x, y). y \<leftarrow> [0..height g - 1], x \<leftarrow> [0..width g - 1]]"

text \<open>The draws of the run with another cell for \<^verbatim>\<open>place_agent\<close>.\<close>

definition demo_draws_at :: "nat \<Rightarrow> nat \<Rightarrow> nat \<Rightarrow> nat list" where
  "demo_draws_at ax ay d = [4, 4, 0, 1, 0, 2, 0, 3, 1, 5, 0, 3, 0, 4, ax, ay, d]"

section \<open>Proofs\<close>

subsection \<open>The branches of a step, and what a call leaves alone\<close>


lemma return_obs_state: "fst (return_obs s r t u) = s"
  by (simp add: return_obs_def)

lemma step_craft:
  "step E 4 s =
     (case front_cell (engine s) of
        Inl e \<Rightarrow> (s, Inl e)
      | Inr (fwd_pos, fwd_cell) \<Rightarrow>
          if is_Box fwd_cell ''blue'' then
            (if ''Tree'' \<in> set (inventory s) \<and> ''Iron Ore'' \<in> set (inventory s) \<and> \<not> sword_crafted s
             then return_obs
                    (s\<lparr>inventory := remove1 ''Iron Ore'' (remove1 ''Tree'' (inventory s)) @ [''Iron Sword''],
                       sword_crafted := True\<rparr>)
                    (if current_episode s < max_reward_episodes s then 49 else - 1) False False
             else return_obs s (- 2) False False)
          else super_step E 4 s (- 1))"
  unfolding step_def Let_def by (auto split: sum.splits prod.splits option.splits)

lemma step_open:
  "step E 5 s =
     (case front_cell (engine s) of
        Inl e \<Rightarrow> (s, Inl e)
      | Inr (fwd_pos, fwd_cell) \<Rightarrow>
          if is_Box fwd_cell ''purple'' then
            (if ''Iron Sword'' \<in> set (inventory s)
             then return_obs (s\<lparr>inventory := inventory s @ [''Treasure'']\<rparr>) 999 True False
             else return_obs s (- 2) False False)
          else super_step E 5 s (- 1))"
  unfolding step_def Let_def by (auto split: sum.splits prod.splits option.splits)

lemma step_toggle:
  "step E 3 s =
     (case front_cell (engine s) of
        Inl e \<Rightarrow> (s, Inl e)
      | Inr (fwd_pos, fwd_cell) \<Rightarrow>
          (case as_Resource fwd_cell of
             Some resource_name \<Rightarrow>
               if resource_name \<notin> collected_resources_global s
               then (case Grid_set (grid (engine s)) fwd_pos None of
                       Inl e \<Rightarrow>
                         (s\<lparr>collected_resources_global := insert resource_name (collected_resources_global s),
                            inventory := inventory s @ [resource_name]\<rparr>, Inl e)
                     | Inr g \<Rightarrow>
                         return_obs
                           (s\<lparr>collected_resources_global := insert resource_name (collected_resources_global s),
                              inventory := inventory s @ [resource_name],
                              engine := (engine s)\<lparr>grid := g\<rparr>\<rparr>) 0 False False)
               else return_obs s (- 2) False False
           | None \<Rightarrow> super_step E 3 s (- 1)))"
  unfolding step_def Let_def by (auto split: sum.splits prod.splits option.splits)

lemma step_other:
  "action \<noteq> 4 \<Longrightarrow> action \<noteq> 5 \<Longrightarrow> action \<noteq> 3 \<Longrightarrow> step E action s = super_step E action s (- 1)"
  unfolding step_def Let_def by (auto split: sum.splits prod.splits option.splits)


lemma super_step_frame:
  "inventory (fst (super_step E a s r)) = inventory s"
  "sword_crafted (fst (super_step E a s r)) = sword_crafted s"
  "collected_resources_global (fst (super_step E a s r)) = collected_resources_global s"
  "current_episode (fst (super_step E a s r)) = current_episode s"
  "max_reward_episodes (fst (super_step E a s r)) = max_reward_episodes s"
  by (simp_all add: super_step_def return_obs_def split: prod.splits sum.splits)

lemma step_global_mono:
  "collected_resources_global s \<subseteq> collected_resources_global (fst (step E a s))"
proof -
  consider "a = 4" | "a = 5" | "a = 3" | "a \<noteq> 4" "a \<noteq> 5" "a \<noteq> 3" by blast
  then show ?thesis
  proof cases
    case 1
    then show ?thesis
      by (auto simp: step_craft return_obs_state super_step_frame split: sum.splits prod.splits)
  next
    case 2
    then show ?thesis
      by (auto simp: step_open return_obs_state super_step_frame split: sum.splits prod.splits)
  next
    case 3
    then show ?thesis
      by (auto simp: step_toggle return_obs_state super_step_frame
          split: sum.splits prod.splits option.splits)
  next
    case 4
    then show ?thesis by (simp add: step_other super_step_frame)
  qed
qed


lemma ledger_eq_simps:
  "ledger_eq s s"
  "ledger_eq s (t\<lparr>engine := w\<rparr>) = ledger_eq s t"
  "ledger_eq s (t\<lparr>agent_start_pos := q\<rparr>) = ledger_eq s t"
  by (simp_all add: ledger_eq_def)

lemma gen_agent_frame:
  assumes "gen_agent s w h ds = Some (t, out)"
  shows "ledger_eq s t"
proof (cases "agent_start_pos s")
  case None
  with assms show ?thesis
    by (auto simp: gen_agent_def ledger_eq_simps split: option.splits sum.splits prod.splits)
next
  case (Some p)
  show ?thesis
  proof (cases "Grid_get (grid (engine s)) p")
    case (Inl e)
    with Some assms show ?thesis by (simp add: gen_agent_def ledger_eq_simps)
  next
    case (Inr start_cell)
    show ?thesis
    proof (cases start_cell)
      case None
      with Some Inr assms show ?thesis by (auto simp: gen_agent_def ledger_eq_simps)
    next
      case (Some obj)
      with \<open>agent_start_pos s = Some p\<close> Inr assms show ?thesis
        by (cases "empty_positions (grid (engine s)) w h")
           (auto simp: gen_agent_def can_overlap_def ledger_eq_simps)
    qed
  qed
qed

lemma gen_grid_frame:
  assumes "gen_grid s w h ds = Some (t, out)"
  shows "ledger_eq s t"
proof (cases "w < 3 \<or> h < 3")
  case True
  with assms show ?thesis by (auto simp: gen_grid_def ledger_eq_simps)
next
  case False
  show ?thesis
  proof (cases "place_objs ((engine s)\<lparr>grid := wall_rect 0 0 w h (new_Grid w h)\<rparr>) gen_objects ds")
    case None
    with False assms show ?thesis by (simp add: gen_grid_def)
  next
    case (Some r)
    obtain w1 o1 where r: "r = (w1, o1)" by (cases r)
    show ?thesis
    proof (cases o1)
      case (Inl e)
      with False Some r assms show ?thesis by (auto simp: gen_grid_def ledger_eq_simps)
    next
      case (Inr ds1)
      with False Some r assms have "gen_agent (s\<lparr>engine := w1\<rparr>) w h ds1 = Some (t, out)"
        by (simp add: gen_grid_def)
      from gen_agent_frame [OF this] show ?thesis by (simp add: ledger_eq_def)
    qed
  qed
qed

lemma reset_frame:
  assumes "reset ds s = Some (t, out)"
  shows "inventory t = [] \<and> sword_crafted t = False
    \<and> collected_resources_global t = collected_resources_global s
    \<and> current_episode t = current_episode s + 1 \<and> max_reward_episodes t = max_reward_episodes s"
proof -
  define s1 where "s1 = s\<lparr>inventory := [], sword_crafted := False, current_episode := current_episode s + 1\<rparr>"
  from assms obtain s2 o2 where g: "gen_grid s1 (env_width (engine s1)) (env_height (engine s1)) ds = Some (s2, o2)"
    unfolding reset_def Let_def s1_def by (auto split: option.splits)
  from gen_grid_frame [OF g] have l: "ledger_eq s1 s2" .
  from assms g have "ledger_eq s2 t"
    unfolding reset_def Let_def s1_def
    by (auto simp: ledger_eq_simps split: option.splits sum.splits prod.splits)
  with l show ?thesis by (simp add: ledger_eq_def s1_def)
qed

lemma reach_global_mono:
  "reach E s t \<Longrightarrow> collected_resources_global s \<subseteq> collected_resources_global t"
proof (induction rule: reach.induct)
  case reach_refl
  show ?case by simp
next
  case (reach_step t action)
  then show ?case using step_global_mono [of t E action] by blast
next
  case (reach_reset t ds t' out)
  then show ?case using reset_frame [of ds t t' out] by simp
qed

lemma horz_fold_cells:
  "cells (fold (\<lambda>i g. g\<lparr>cells := (cells g)((x + i, y) := Some Wall)\<rparr>) is g) p =
     (if \<exists>i\<in>set is. p = (x + i, y) then Some Wall else cells g p)"
  by (induction "is" arbitrary: g) auto

lemma vert_fold_cells:
  "cells (fold (\<lambda>j g. g\<lparr>cells := (cells g)((x, y + j) := Some Wall)\<rparr>) js g) p =
     (if \<exists>j\<in>set js. p = (x, y + j) then Some Wall else cells g p)"
  by (induction js arbitrary: g) auto

lemma horz_fold_dims:
  "width (fold (\<lambda>i g. g\<lparr>cells := (cells g)((x + i, y) := Some Wall)\<rparr>) is g) = width g"
  "height (fold (\<lambda>i g. g\<lparr>cells := (cells g)((x + i, y) := Some Wall)\<rparr>) is g) = height g"
  by (induction "is" arbitrary: g) auto

lemma vert_fold_dims:
  "width (fold (\<lambda>j g. g\<lparr>cells := (cells g)((x, y + j) := Some Wall)\<rparr>) js g) = width g"
  "height (fold (\<lambda>j g. g\<lparr>cells := (cells g)((x, y + j) := Some Wall)\<rparr>) js g) = height g"
  by (induction js arbitrary: g) auto

lemma horz_range:
  "(\<exists>i\<in>set [0..len - 1]. p = (x + i, y)) = (snd p = y \<and> x \<le> fst p \<and> fst p < x + len)"
proof
  assume "\<exists>i\<in>set [0..len - 1]. p = (x + i, y)"
  then show "snd p = y \<and> x \<le> fst p \<and> fst p < x + len" by auto
next
  assume a: "snd p = y \<and> x \<le> fst p \<and> fst p < x + len"
  then have "fst p - x \<in> set [0..len - 1]" "p = (x + (fst p - x), y)" by (auto simp: prod_eq_iff)
  then show "\<exists>i\<in>set [0..len - 1]. p = (x + i, y)" by blast
qed

lemma vert_range:
  "(\<exists>j\<in>set [0..len - 1]. p = (x, y + j)) = (fst p = x \<and> y \<le> snd p \<and> snd p < y + len)"
proof
  assume "\<exists>j\<in>set [0..len - 1]. p = (x, y + j)"
  then show "fst p = x \<and> y \<le> snd p \<and> snd p < y + len" by auto
next
  assume a: "fst p = x \<and> y \<le> snd p \<and> snd p < y + len"
  then have "snd p - y \<in> set [0..len - 1]" "p = (x, y + (snd p - y))" by (auto simp: prod_eq_iff)
  then show "\<exists>j\<in>set [0..len - 1]. p = (x, y + j)" by blast
qed

lemma horz_wall_cells:
  "cells (horz_wall x y len g) p =
     (if snd p = y \<and> x \<le> fst p \<and> fst p < x + len then Some Wall else cells g p)"
  unfolding horz_wall_def horz_fold_cells horz_range by simp

lemma vert_wall_cells:
  "cells (vert_wall x y len g) p =
     (if fst p = x \<and> y \<le> snd p \<and> snd p < y + len then Some Wall else cells g p)"
  unfolding vert_wall_def vert_fold_cells vert_range by simp

lemma wall_dims:
  "width (wall_rect x y w h g) = width g" "height (wall_rect x y w h g) = height g"
  unfolding wall_rect_def horz_wall_def vert_wall_def
  by (simp_all only: horz_fold_dims vert_fold_dims)

lemma wall_cells:
  "cells (wall_rect 0 0 w h (new_Grid w h)) (x, y) =
     (if (0 \<le> x \<and> x < w \<and> (y = 0 \<or> y = h - 1)) \<or> (0 \<le> y \<and> y < h \<and> (x = 0 \<or> x = w - 1))
      then Some Wall else None)"
  unfolding wall_rect_def horz_wall_cells vert_wall_cells
  by (auto simp: new_Grid_def)

lemma place_loop_Cons:
  "place_loop g ap tp (dx # dy # ds) =
     (if min (fst tp + width g) (width g) \<le> fst tp then Some (Inl ValueError)
      else if min (snd tp + height g) (height g) \<le> snd tp then Some (Inl ValueError)
      else (let pos = (fst tp + int dx mod (min (fst tp + width g) (width g) - fst tp),
                       snd tp + int dy mod (min (snd tp + height g) (height g) - snd tp))
            in if cells g pos \<noteq> None then place_loop g ap tp ds
               else if ap = Some pos then place_loop g ap tp ds
               else Some (Inr (pos, ds))))"
  by (subst place_loop.simps) simp

lemma new_Grid_simps:
  "width (new_Grid w h) = w" "height (new_Grid w h) = h" "cells (new_Grid w h) p = None"
  by (simp_all add: new_Grid_def)


lemma demo_sel:
  "grid (engine (demo g pos dir steps ep rec crafted ledger)) = g"
  "agent_pos (engine (demo g pos dir steps ep rec crafted ledger)) = pos"
  "agent_dir (engine (demo g pos dir steps ep rec crafted ledger)) = dir"
  "step_count (engine (demo g pos dir steps ep rec crafted ledger)) = steps"
  "carrying (engine (demo g pos dir steps ep rec crafted ledger)) = None"
  "current_episode (demo g pos dir steps ep rec crafted ledger) = ep"
  "max_reward_episodes (demo g pos dir steps ep rec crafted ledger) = 20"
  "collected_resources_global (demo g pos dir steps ep rec crafted ledger) = rec"
  "sword_crafted (demo g pos dir steps ep rec crafted ledger) = crafted"
  "inventory (demo g pos dir steps ep rec crafted ledger) = ledger"
  "agent_start_pos (demo g pos dir steps ep rec crafted ledger) = Some (1, 1)"
  "env_width (engine (demo g pos dir steps ep rec crafted ledger)) = 12"
  "env_height (engine (demo g pos dir steps ep rec crafted ledger)) = 12"
  by (simp_all add: demo_def)

lemma init_demo: "init default_config = Inr demo_init"
  by (simp add: init_def default_config_def demo_init_def demo_def)

lemma place_demo:
  assumes "pos = None \<or> pos = Some (6, 5)"
  shows "place_objs ((engine (demo g pos dir steps ep rec crafted ledger))\<lparr>grid := wall_rect 0 0 12 12 (new_Grid 12 12)\<rparr>)
      gen_objects (demo_draws d)
    = Some ((engine (demo g pos dir steps ep rec crafted ledger))\<lparr>grid := demo_grid\<rparr>, Inr [6, 5, d])"
  using assms
  by (auto simp add: gen_objects_def demo_draws_def place_obj_def demo_def wall_cells wall_dims
      demo_grid_def new_Grid_simps place_loop_Cons simp del: place_loop.simps)

lemma demo_grid_dims: "width demo_grid = 12" "height demo_grid = 12"
  by (simp_all add: demo_grid_def wall_dims new_Grid_simps)

lemma demo_grid_cells:
  "cells demo_grid (x, y) =
     (if (x, y) = (7, 5) then Some (Box ''blue'')
      else if (x, y) = (6, 4) then Some (Box ''purple'')
      else if (x, y) = (6, 6) then Some (Resource ''green'' ''Tree'')
      else if (x, y) = (4, 4) then Some (Resource ''yellow'' ''Gold Ore'')
      else if (x, y) = (3, 3) then Some (Resource ''purple'' ''Platinum Ore'')
      else if (x, y) = (2, 2) then Some (Resource ''grey'' ''Silver Ore'')
      else if (x, y) = (5, 5) then Some (Resource ''red'' ''Iron Ore'')
      else if (0 \<le> x \<and> x < 12 \<and> (y = 0 \<or> y = 11)) \<or> (0 \<le> y \<and> y < 12 \<and> (x = 0 \<or> x = 11))
      then Some Wall else None)"
  by (simp add: demo_grid_def wall_cells)

lemma clear_empty: "cells g p = None \<Longrightarrow> g\<lparr>cells := (cells g)(p := None)\<rparr> = g"
  by (cases g) (simp add: fun_upd_idem)

lemma reset_demo:
  assumes "pos = None \<or> pos = Some (6, 5)"
  shows "reset (demo_draws d) (demo g pos dir steps ep rec crafted ledger) =
     Some (demo demo_grid (Some (6, 5)) (Some (int d mod 4)) 0 (ep + 1) rec False [],
           get_obs (demo demo_grid (Some (6, 5)) (Some (int d mod 4)) 0 (ep + 1) rec False []))"
proof -
  let ?s1 = "demo g pos dir steps (ep + 1) rec False []"
  have s1: "(demo g pos dir steps ep rec crafted ledger)\<lparr>inventory := [], sword_crafted := False,
       current_episode := current_episode (demo g pos dir steps ep rec crafted ledger) + 1\<rparr> = ?s1"
    by (simp add: demo_def)
  have gg: "gen_grid ?s1 12 12 (demo_draws d) =
      Some (demo demo_grid (Some (1, 1)) (Some 0) steps (ep + 1) rec False [], Inr [6, 5, d])"
    unfolding gen_grid_def using place_demo [OF assms, of g dir steps "ep + 1" rec False "[]" d]
    by (simp add: gen_agent_def Grid_get_def in_bounds_def demo_grid_dims demo_grid_cells demo_def)
  have pa: "place_agent (engine (demo demo_grid (Some (1, 1)) (Some 0) steps (ep + 1) rec False [])) [6, 5, d]
     = Some (engine (demo demo_grid (Some (6, 5)) (Some (int d mod 4)) steps (ep + 1) rec False []), Inr [])"
    by (simp add: place_agent_def place_obj_def place_loop_Cons demo_def demo_grid_dims demo_grid_cells
        clear_empty del: place_loop.simps)
  show ?thesis
    unfolding reset_def Let_def s1
    by (simp add: gg pa demo_sel del: One_nat_def) (simp add: demo_def)
qed


subsection \<open>The observation never fails on a world in order; the ledger invariant\<close>

lemma obj_ok_index: "obj_ok obj \<Longrightarrow> \<exists>i. get_entity_index obj = Inr i"
  by (auto simp: obj_ok_def gen_objects_def get_entity_index_def list_index_def resource_names_def)

lemma obj_ok_Resource:
  "obj_ok (Resource c n) \<Longrightarrow> n \<in> set resource_names \<and> n \<noteq> ''Iron Sword''"
  by (auto simp: obj_ok_def gen_objects_def resource_names_def)

lemma lidar_beam_ok:
  assumes "grid_ok g"
  shows "\<exists>acc'. lidar_beam g (Some a) angle cs acc = Inr acc'"
proof (induction cs arbitrary: acc)
  case Nil
  show ?case by simp
next
  case (Cons c cs)
  show ?case
  proof (cases "cells g c")
    case None
    then show ?thesis using Cons.IH by simp
  next
    case (Some obj)
    with assms have "obj_ok obj" unfolding grid_ok_def by blast
    then obtain i where i: "get_entity_index obj = Inr i"
      using obj_ok_index by blast
    show ?thesis using Some i Cons.IH by (simp add: Let_def)
  qed
qed

lemma lidar_rows_ok:
  assumes "grid_ok g"
  shows "\<exists>rows. lidar_rows g (Some a) as = Inr rows"
proof (induction as)
  case Nil
  show ?case by simp
next
  case (Cons angle as)
  from lidar_beam_ok [OF assms] obtain acc'
    where "lidar_beam g (Some a) angle (scan_order g) (None, - 1) = Inr acc'" by blast
  with Cons show ?case by auto
qed

lemma get_obs_ok:
  assumes "grid_ok (grid (engine s))" "agent_pos (engine s) = Some a"
  shows "\<exists>obs. get_obs s = Inr obs"
  using lidar_rows_ok [OF assms(1), of a angles] assms(2)
  by (auto simp: get_obs_def get_lidar_observation_def)

lemma front_cell_pos:
  "front_cell w = Inr r \<Longrightarrow> \<exists>a. agent_pos w = Some a"
  by (auto simp: front_cell_def front_pos_def split: sum.splits option.splits)

lemma front_cell_bounds:
  "front_cell w = Inr (p, c) \<Longrightarrow> in_bounds (grid w) p \<and> c = cells (grid w) p"
  by (auto simp: front_cell_def Grid_get_def split: sum.splits if_splits)

lemma return_obs_ok:
  assumes "grid_ok (grid (engine s))" "agent_pos (engine s) = Some a"
  shows "\<exists>obs. return_obs s r t u = (s, Inr (obs, r, t, u))"
  using get_obs_ok [OF assms] by (auto simp: return_obs_def)

lemma count_list_remove1:
  "count_list (remove1 x xs) y =
     (if x = y \<and> x \<in> set xs then count_list xs y - 1 else count_list xs y)"
  by (induction xs) auto

lemma count_list_zero: "count_list xs x = 0 \<longleftrightarrow> x \<notin> set xs"
  by (induction xs) auto

lemma ledger_ok_craft:
  assumes "ledger_ok s"
  shows "ledger_ok (s\<lparr>inventory := remove1 ''Iron Ore'' (remove1 ''Tree'' (inventory s)) @ [''Iron Sword''],
                      sword_crafted := True\<rparr>)"
proof -
  have "''Iron Sword'' \<notin> set resource_names" by (simp add: resource_names_def)
  moreover have "count_list (remove1 ''Iron Ore'' (remove1 ''Tree'' (inventory s))) k
      \<le> count_list (inventory s) k" for k
    by (simp add: count_list_remove1)
  moreover have "set (remove1 ''Iron Ore'' (remove1 ''Tree'' (inventory s))) \<subseteq> set (inventory s)"
    by (meson set_remove1_subset subset_trans)
  ultimately show ?thesis using assms
    by (auto simp: ledger_ok_def intro: order_trans)
qed

lemma ledger_ok_open:
  assumes "ledger_ok s"
  shows "ledger_ok (s\<lparr>inventory := inventory s @ [''Treasure'']\<rparr>)"
  using assms by (auto simp: ledger_ok_def resource_names_def)

lemma ledger_ok_collect:
  assumes "ledger_ok s" "n \<notin> collected_resources_global s"
  shows "ledger_ok (s\<lparr>collected_resources_global := insert n (collected_resources_global s),
                      inventory := inventory s @ [n], engine := w\<rparr>)"
    and "ledger_ok (s\<lparr>collected_resources_global := insert n (collected_resources_global s),
                      inventory := inventory s @ [n]\<rparr>)"
proof -
  have "count_list (inventory s) n = 0" if "n \<in> set resource_names"
    using assms that by (auto simp: ledger_ok_def count_list_zero)
  then show "ledger_ok (s\<lparr>collected_resources_global := insert n (collected_resources_global s),
                      inventory := inventory s @ [n], engine := w\<rparr>)"
    and "ledger_ok (s\<lparr>collected_resources_global := insert n (collected_resources_global s),
                      inventory := inventory s @ [n]\<rparr>)"
    using assms(1) by (auto simp: ledger_ok_def)
qed

lemma ledger_ok_engine: "ledger_ok (s\<lparr>engine := w\<rparr>) = ledger_ok s"
  by (simp add: ledger_ok_def)

lemma ledger_ok_super: "ledger_ok s \<Longrightarrow> ledger_ok (fst (super_step E a s r))"
  by (simp add: ledger_ok_def super_step_frame)

lemma ledger_ok_step:
  assumes "ledger_ok s"
  shows "ledger_ok (fst (step E a s))"
proof -
  consider "a = 4" | "a = 5" | "a = 3" | "a \<noteq> 4" "a \<noteq> 5" "a \<noteq> 3" by blast
  then show ?thesis
  proof cases
    case 1
    then show ?thesis using assms
      by (auto simp: step_craft return_obs_state ledger_ok_super ledger_ok_craft
          split: sum.splits prod.splits)
  next
    case 2
    then show ?thesis using assms
      by (auto simp: step_open return_obs_state ledger_ok_super ledger_ok_open
          split: sum.splits prod.splits)
  next
    case 3
    then show ?thesis using assms
      by (auto simp: step_toggle return_obs_state ledger_ok_super ledger_ok_collect
          split: sum.splits prod.splits option.splits)
  next
    case 4
    then show ?thesis using assms by (simp add: step_other ledger_ok_super)
  qed
qed

lemma ledger_ok_reset:
  assumes "reset ds s = Some (t, out)"
  shows "ledger_ok t"
  using reset_frame [OF assms] by (simp add: ledger_ok_def)

lemma ledger_ok_init: "init c = Inr s \<Longrightarrow> ledger_ok s"
  by (auto simp: init_def ledger_ok_def split: if_splits)

lemma ledger_ok_reach: "reach E s t \<Longrightarrow> ledger_ok s \<Longrightarrow> ledger_ok t"
proof (induction rule: reach.induct)
  case reach_refl
  then show ?case by simp
next
  case (reach_step t action)
  then show ?case by (simp add: ledger_ok_step)
next
  case (reach_reset t ds t' out)
  then show ?case by (simp add: ledger_ok_reset)
qed

lemma ledger_ok_reachable: "reachable E s \<Longrightarrow> ledger_ok s"
  unfolding reachable_def using ledger_ok_reach ledger_ok_init by blast


subsection \<open>The run, step by step\<close>

lemma clear_cell_sel:
  "width (clear_cell p g) = width g" "height (clear_cell p g) = height g"
  "cells (clear_cell p g) q = (if q = p then None else cells g q)"
  by (simp_all add: clear_cell_def)

lemmas demo_eval = demo_sel front_cell_def front_pos_def dir_vec_def DIR_TO_VEC_def Grid_get_def
  Grid_set_def in_bounds_def demo_grid_dims demo_grid_cells clear_cell_sel is_Box_def as_Resource_def

lemma run_toggle_ore:
  "step E 3 (demo demo_grid (Some (6, 5)) (Some 2) n ep {} False []) =
     return_obs (demo (clear_cell (5, 5) demo_grid) (Some (6, 5)) (Some 2) n ep {''Iron Ore''} False
                   [''Iron Ore'']) 0 False False"
  by (simp add: step_toggle demo_eval) (simp add: demo_def clear_cell_def)

lemma run_turn:
  assumes "width g = 12" "height g = 12" "0 \<le> d" "d < 4"
  shows "fst (step minigrid_step 0 (demo g (Some (6, 5)) (Some d) n ep rec cr led)) =
     demo g (Some (6, 5)) (Some (if d = 0 then 3 else d - 1)) (n + 1) ep rec cr led"
proof -
  have "d = 0 \<or> d = 1 \<or> d = 2 \<or> d = 3" using assms by arith
  then show ?thesis using assms(1,2)
    by (auto simp: step_other super_step_def minigrid_step_def return_obs_def demo_def
        front_cell_def front_pos_def dir_vec_def DIR_TO_VEC_def Grid_get_def in_bounds_def
        split: sum.splits prod.splits)
qed

lemma run_toggle_tree:
  "step E 3 (demo (clear_cell (5, 5) demo_grid) (Some (6, 5)) (Some 1) n ep {''Iron Ore''} False
       [''Iron Ore'']) =
     return_obs (demo (clear_cell (6, 6) (clear_cell (5, 5) demo_grid)) (Some (6, 5)) (Some 1) n ep
                   {''Tree'', ''Iron Ore''} False [''Iron Ore'', ''Tree'']) 0 False False"
  by (simp add: step_toggle demo_eval) (auto simp add: demo_def clear_cell_def)

lemma run_craft:
  "step E 4 (demo (clear_cell (6, 6) (clear_cell (5, 5) demo_grid)) (Some (6, 5)) (Some 0) n 1
       rec False [''Iron Ore'', ''Tree'']) =
     return_obs (demo (clear_cell (6, 6) (clear_cell (5, 5) demo_grid)) (Some (6, 5)) (Some 0) n 1
                   rec True [''Iron Sword'']) 49 False False"
  by (simp add: step_craft demo_eval) (simp add: demo_def)

lemma run_open:
  "step E 5 (demo (clear_cell (6, 6) (clear_cell (5, 5) demo_grid)) (Some (6, 5)) (Some 3) n ep
       rec True [''Iron Sword'']) =
     return_obs (demo (clear_cell (6, 6) (clear_cell (5, 5) demo_grid)) (Some (6, 5)) (Some 3) n ep
                   rec True [''Iron Sword'', ''Treasure'']) 999 True False"
  by (simp add: step_open demo_eval) (simp add: demo_def)

lemma reach_demo1:
  "reach E demo_init (demo demo_grid (Some (6, 5)) (Some (int d mod 4)) 0 1 {} False [])"
  using reach_reset [OF reach_refl, of "demo_draws d" demo_init _ _ E]
    reset_demo [of None d "new_Grid 12 12" None 0 0 "{}" False "[]"]
  by (simp add: demo_init_def)

lemma reach_demo2:
  "reach minigrid_step demo_init
     (demo (clear_cell (5, 5) demo_grid) (Some (6, 5)) (Some 2) 0 1 {''Iron Ore''} False [''Iron Ore''])"
  using reach_step [OF reach_demo1 [of minigrid_step 2], of 3]
  by (simp add: run_toggle_ore return_obs_state)

lemma reach_demo3:
  "reach minigrid_step demo_init
     (demo (clear_cell (5, 5) demo_grid) (Some (6, 5)) (Some 1) 1 1 {''Iron Ore''} False [''Iron Ore''])"
  using reach_step [OF reach_demo2, of 0]
  by (simp add: run_turn clear_cell_sel demo_grid_dims)

lemma reach_demo4:
  "reach minigrid_step demo_init
     (demo (clear_cell (6, 6) (clear_cell (5, 5) demo_grid)) (Some (6, 5)) (Some 1) 1 1
        {''Tree'', ''Iron Ore''} False [''Iron Ore'', ''Tree''])"
  using reach_step [OF reach_demo3, of 3]
  by (simp add: run_toggle_tree return_obs_state)

lemma reach_demo5:
  "reach minigrid_step demo_init
     (demo (clear_cell (6, 6) (clear_cell (5, 5) demo_grid)) (Some (6, 5)) (Some 0) 2 1
        {''Tree'', ''Iron Ore''} False [''Iron Ore'', ''Tree''])"
  using reach_step [OF reach_demo4, of 0]
  by (simp add: run_turn clear_cell_sel demo_grid_dims)

lemma reach_demo6:
  "reach minigrid_step demo_init
     (demo (clear_cell (6, 6) (clear_cell (5, 5) demo_grid)) (Some (6, 5)) (Some 0) 2 1
        {''Tree'', ''Iron Ore''} True [''Iron Sword''])"
  using reach_step [OF reach_demo5, of 4]
  by (simp add: run_craft return_obs_state)

lemma reach_demo7:
  "reach minigrid_step demo_init
     (demo (clear_cell (6, 6) (clear_cell (5, 5) demo_grid)) (Some (6, 5)) (Some 3) 3 1
        {''Tree'', ''Iron Ore''} True [''Iron Sword''])"
  using reach_step [OF reach_demo6, of 0]
  by (simp add: run_turn clear_cell_sel demo_grid_dims)

lemma reach_demo9:
  "reach minigrid_step demo_init
     (demo demo_grid (Some (6, 5)) (Some 2) 0 2 {''Iron Ore''} False [])"
  using reach_reset [OF reach_demo2, of "demo_draws 2"]
    reset_demo [of "Some (6, 5)" 2 "clear_cell (5, 5) demo_grid" "Some 2" 0 1 "{''Iron Ore''}" False "[''Iron Ore'']"]
  by simp


subsection \<open>The world stays in order\<close>

lemma grid_ok_upd:
  "grid_ok g \<Longrightarrow> (\<And>obj. v = Some obj \<Longrightarrow> obj_ok obj) \<Longrightarrow> grid_ok (g\<lparr>cells := (cells g)(p := v)\<rparr>)"
  by (auto simp: grid_ok_def)

lemma grid_ok_wall_rect: "grid_ok g \<Longrightarrow> grid_ok (wall_rect x y w h g)"
  by (auto simp: grid_ok_def wall_rect_def horz_wall_cells vert_wall_cells obj_ok_def
      split: if_splits)

lemma grid_ok_new: "grid_ok (new_Grid w h)"
  by (simp add: grid_ok_def new_Grid_def)

lemma place_obj_inv:
  assumes "place_obj w obj tp ds = Some (w', out)"
  shows "carrying w' = carrying w"
    and "grid_ok (grid w) \<Longrightarrow> (\<And>o'. obj = Some o' \<Longrightarrow> obj_ok o') \<Longrightarrow> grid_ok (grid w')"
  using assms
  by (auto simp: place_obj_def grid_ok_upd split: option.splits sum.splits prod.splits)

lemma place_objs_inv:
  assumes "place_objs w objs ds = Some (w', out)" "\<forall>x\<in>set objs. obj_ok (fst x)"
  shows "carrying w' = carrying w \<and> (grid_ok (grid w) \<longrightarrow> grid_ok (grid w'))"
  using assms
proof (induction objs arbitrary: w ds)
  case Nil
  then show ?case by simp
next
  case (Cons x objs)
  obtain obj tp where x: "x = (obj, tp)" by (cases x)
  show ?case
  proof (cases "place_obj w (Some obj) tp ds")
    case None
    with Cons.prems x show ?thesis by simp
  next
    case (Some r)
    obtain w1 o1 where r: "r = (w1, o1)" by (cases r)
    from Cons.prems(2) x have ok: "obj_ok obj" by simp
    note inv = place_obj_inv [OF Some [unfolded r]]
    show ?thesis
    proof (cases o1)
      case (Inl e)
      with Some r x Cons.prems(1) inv ok show ?thesis by auto
    next
      case (Inr pr)
      obtain pos ds1 where pr: "pr = (pos, ds1)" by (cases pr)
      from Some r x Inr pr Cons.prems(1) have "place_objs w1 objs ds1 = Some (w', out)" by simp
      from Cons.IH [OF this] Cons.prems(2) inv ok show ?thesis by auto
    qed
  qed
qed

lemma gen_objects_ok: "\<forall>x\<in>set gen_objects. obj_ok (fst x)"
  by (simp add: obj_ok_def)

lemma place_agent_inv:
  assumes "place_agent w ds = Some (w', out)"
  shows "carrying w' = carrying w \<and> (grid_ok (grid w) \<longrightarrow> grid_ok (grid w'))"
proof (cases "place_obj (w\<lparr>agent_pos := Some (- 1, - 1)\<rparr>) None (0, 0) ds")
  case None
  with assms show ?thesis by (simp add: place_agent_def)
next
  case (Some r)
  obtain w1 o1 where r: "r = (w1, o1)" by (cases r)
  note inv = place_obj_inv [OF Some [unfolded r]]
  from assms Some r inv show ?thesis
    by (auto simp: place_agent_def split: sum.splits prod.splits list.splits)
qed

lemma gen_agent_inv:
  assumes "gen_agent s w h ds = Some (t, out)"
  shows "carrying (engine t) = carrying (engine s)
    \<and> (grid_ok (grid (engine s)) \<longrightarrow> grid_ok (grid (engine t)))"
proof (cases "agent_start_pos s")
  case None
  show ?thesis
  proof (cases "place_agent (engine s) ds")
    case None
    with \<open>agent_start_pos s = None\<close> assms show ?thesis by (simp add: gen_agent_def)
  next
    case (Some r)
    obtain w1 o1 where r: "r = (w1, o1)" by (cases r)
    from place_agent_inv [OF Some [unfolded r]] assms Some r \<open>agent_start_pos s = None\<close>
    show ?thesis by (auto simp: gen_agent_def split: sum.splits)
  qed
next
  case (Some p)
  show ?thesis
  proof (cases "Grid_get (grid (engine s)) p")
    case (Inl e)
    with Some assms show ?thesis by (simp add: gen_agent_def)
  next
    case (Inr start_cell)
    show ?thesis
    proof (cases start_cell)
      case None
      with Some Inr assms show ?thesis by (auto simp: gen_agent_def)
    next
      case (Some obj)
      with \<open>agent_start_pos s = Some p\<close> Inr assms show ?thesis
        by (cases "empty_positions (grid (engine s)) w h")
           (auto simp: gen_agent_def can_overlap_def)
    qed
  qed
qed

lemma gen_grid_inv:
  assumes "gen_grid s w h ds = Some (t, out)"
  shows "carrying (engine t) = carrying (engine s)
    \<and> (grid_ok (grid (engine s)) \<longrightarrow> grid_ok (grid (engine t)))"
proof (cases "w < 3 \<or> h < 3")
  case True
  with assms show ?thesis by (auto simp: gen_grid_def)
next
  case False
  let ?w0 = "(engine s)\<lparr>grid := wall_rect 0 0 w h (new_Grid w h)\<rparr>"
  have g0: "grid_ok (grid ?w0)" by (simp add: grid_ok_wall_rect grid_ok_new)
  show ?thesis
  proof (cases "place_objs ?w0 gen_objects ds")
    case None
    with False assms show ?thesis by (simp add: gen_grid_def)
  next
    case (Some r)
    obtain w1 o1 where r: "r = (w1, o1)" by (cases r)
    from place_objs_inv [OF Some [unfolded r] gen_objects_ok] g0
    have w1: "carrying w1 = carrying (engine s)" "grid_ok (grid w1)" by simp_all
    show ?thesis
    proof (cases o1)
      case (Inl e)
      with False Some r assms w1 show ?thesis by (auto simp: gen_grid_def)
    next
      case (Inr ds1)
      with False Some r assms have "gen_agent (s\<lparr>engine := w1\<rparr>) w h ds1 = Some (t, out)"
        by (simp add: gen_grid_def)
      from gen_agent_inv [OF this] w1 show ?thesis by simp
    qed
  qed
qed

lemma world_ok_reset:
  assumes "reset ds s = Some (t, out)" "world_ok (engine s)"
  shows "world_ok (engine t)"
proof -
  define s1 where "s1 = s\<lparr>inventory := [], sword_crafted := False, current_episode := current_episode s + 1\<rparr>"
  from assms(1) obtain s2 o2 where g: "gen_grid s1 (env_width (engine s1)) (env_height (engine s1)) ds = Some (s2, o2)"
    unfolding reset_def Let_def s1_def by (auto split: option.splits)
  from gen_grid_inv [OF g] assms(2) have s2: "world_ok (engine s2)"
    by (simp add: world_ok_def s1_def)
  show ?thesis
  proof (cases o2)
    case (Inl e)
    with assms(1) g s2 show ?thesis unfolding reset_def Let_def s1_def by auto
  next
    case (Inr ds2)
    show ?thesis
    proof (cases "place_agent (engine s2) ds2")
      case None
      with assms(1) g Inr show ?thesis unfolding reset_def Let_def s1_def by simp
    next
      case (Some r)
      obtain w3 o3 where r: "r = (w3, o3)" by (cases r)
      from place_agent_inv [OF Some [unfolded r]] s2 have "world_ok w3" by (simp add: world_ok_def)
      with assms(1) g Inr Some r show ?thesis unfolding reset_def Let_def s1_def
        by (auto simp: world_ok_def split: sum.splits)
    qed
  qed
qed

lemma super_step_engine: "engine (fst (super_step E a s r)) = fst (E a (engine s))"
  by (simp add: super_step_def return_obs_def split: prod.splits sum.splits)

lemma world_ok_clear:
  "world_ok w \<Longrightarrow> Grid_set (grid w) p None = Inr g \<Longrightarrow> world_ok (w\<lparr>grid := g\<rparr>)"
  by (auto simp: world_ok_def Grid_set_def grid_ok_def split: if_splits)

lemma world_ok_step:
  assumes "engine_ok E" "world_ok (engine s)"
  shows "world_ok (engine (fst (step E a s)))"
proof -
  have sup: "world_ok (engine (fst (super_step E a s r)))" for r
    using assms by (simp add: super_step_engine engine_ok_def)
  consider "a = 4" | "a = 5" | "a = 3" | "a \<noteq> 4" "a \<noteq> 5" "a \<noteq> 3" by blast
  then show ?thesis
  proof cases
    case 1
    then show ?thesis using assms(2) sup
      by (auto simp: step_craft return_obs_state split: sum.splits prod.splits)
  next
    case 2
    then show ?thesis using assms(2) sup
      by (auto simp: step_open return_obs_state split: sum.splits prod.splits)
  next
    case 3
    then show ?thesis using assms(2) sup
      by (auto simp: step_toggle return_obs_state world_ok_clear
          split: sum.splits prod.splits option.splits)
  next
    case 4
    then show ?thesis using sup by (simp add: step_other)
  qed
qed

lemma world_ok_init: "init c = Inr s \<Longrightarrow> world_ok (engine s)"
  by (auto simp: init_def world_ok_def grid_ok_new split: if_splits)

lemma world_ok_reach:
  "reach E s t \<Longrightarrow> engine_ok E \<Longrightarrow> world_ok (engine s) \<Longrightarrow> world_ok (engine t)"
proof (induction rule: reach.induct)
  case reach_refl
  then show ?case by simp
next
  case (reach_step t action)
  then show ?case by (simp add: world_ok_step)
next
  case (reach_reset t ds t' out)
  then show ?case using world_ok_reset by blast
qed

lemma world_ok_reachable: "engine_ok E \<Longrightarrow> reachable E s \<Longrightarrow> world_ok (engine s)"
  unfolding reachable_def using world_ok_reach world_ok_init by blast

subsection \<open>The sword is in the ledger only when the flag is set\<close>

lemma faced_Resource:
  assumes "world_ok w" "front_cell w = Inr (p, c)" "as_Resource c = Some n"
  shows "n \<in> set resource_names" "n \<noteq> ''Iron Sword''"
proof -
  from assms(3) obtain col where c: "c = Some (Resource col n)"
    by (auto simp: as_Resource_def split: option.splits world_obj.splits)
  with front_cell_bounds [OF assms(2)] have "cells (grid w) p = Some (Resource col n)" by simp
  with assms(1) have "obj_ok (Resource col n)" unfolding world_ok_def grid_ok_def by blast
  from obj_ok_Resource [OF this] show "n \<in> set resource_names" "n \<noteq> ''Iron Sword''" by simp_all
qed

lemma sword_ok_super: "sword_ok s \<Longrightarrow> sword_ok (fst (super_step E a s r))"
  by (simp add: sword_ok_def super_step_frame)

lemma sword_ok_step:
  assumes "world_ok (engine s)" "sword_ok s"
  shows "sword_ok (fst (step E a s))"
proof -
  consider "a = 4" | "a = 5" | "a = 3" | "a \<noteq> 4" "a \<noteq> 5" "a \<noteq> 3" by blast
  then show ?thesis
  proof cases
    case 1
    then show ?thesis using assms(2)
      by (auto simp: step_craft return_obs_state sword_ok_super split: sum.splits prod.splits)
         (simp_all add: sword_ok_def)
  next
    case 2
    then show ?thesis using assms(2)
      by (auto simp: step_open return_obs_state sword_ok_super split: sum.splits prod.splits)
         (simp_all add: sword_ok_def)
  next
    case 3
    show ?thesis
    proof (cases "front_cell (engine s)")
      case (Inl e)
      with 3 assms(2) show ?thesis by (simp add: step_toggle)
    next
      case (Inr r)
      obtain p c where r: "r = (p, c)" by (cases r)
      show ?thesis
      proof (cases "as_Resource c")
        case None
        with 3 Inr r assms(2) show ?thesis by (simp add: step_toggle sword_ok_super)
      next
        case (Some n)
        from faced_Resource [OF assms(1) Inr [unfolded r] Some] have "n \<noteq> ''Iron Sword''" by simp
        with 3 Inr r Some assms(2) show ?thesis
          by (auto simp: step_toggle return_obs_state sword_ok_def split: sum.splits)
      qed
    qed
  next
    case 4
    then show ?thesis using assms(2) by (simp add: step_other sword_ok_super)
  qed
qed

lemma sword_ok_reach:
  "reach E s t \<Longrightarrow> engine_ok E \<Longrightarrow> world_ok (engine s) \<Longrightarrow> sword_ok s \<Longrightarrow> sword_ok t"
proof (induction rule: reach.induct)
  case reach_refl
  then show ?case by simp
next
  case (reach_step t action)
  then show ?case using world_ok_reach sword_ok_step by blast
next
  case (reach_reset t ds t' out)
  from reset_frame [OF reach_reset.hyps(2)] show ?case by (simp add: sword_ok_def)
qed

lemma sword_ok_reachable: "engine_ok E \<Longrightarrow> reachable E s \<Longrightarrow> sword_ok s"
proof -
  assume e: "engine_ok E" and "reachable E s"
  then obtain c s0 where i: "init c = Inr s0" and r: "reach E s0 s" unfolding reachable_def by blast
  from i have "sword_ok s0" by (auto simp: init_def sword_ok_def split: if_splits)
  with sword_ok_reach [OF r e world_ok_init [OF i]] show "sword_ok s" by blast
qed

subsection \<open>The engine of the run is admissible\<close>

lemma minigrid_step_ok: "engine_ok minigrid_step"
  unfolding engine_ok_def
proof (intro allI impI)
  fix action w
  assume ok: "world_ok w"
  let ?w1 = "w\<lparr>step_count := step_count w + 1\<rparr>"
  have ok1: "world_ok ?w1" using ok by (simp add: world_ok_def)
  show "world_ok (fst (minigrid_step action w))"
  proof (cases "front_cell ?w1")
    case (Inl e)
    then show ?thesis using ok1 by (simp add: minigrid_step_def)
  next
    case (Inr r)
    obtain p c where r: "r = (p, c)" by (cases r)
    from front_cell_bounds [OF Inr [unfolded r]] have c: "c = cells (grid w) p" by simp
    have cok: "obj_ok obj" if "c = Some obj" for obj
      using that c ok unfolding world_ok_def grid_ok_def by metis
    have up: "world_ok (?w1\<lparr>grid := (grid ?w1)\<lparr>cells := (cells (grid ?w1))(p := None)\<rparr>\<rparr>)"
      using ok by (auto simp: world_ok_def grid_ok_def)
    have pick: "world_ok (?w1\<lparr>carrying := Some obj,
                 grid := (grid ?w1)\<lparr>cells := (cells (grid ?w1))(p := None)\<rparr>\<rparr>)" if "c = Some obj" for obj
      using ok cok [OF that] by (auto simp: world_ok_def grid_ok_def)
    have drop: "world_ok (?w1\<lparr>grid := (grid ?w1)\<lparr>cells := (cells (grid ?w1))(p := carrying ?w1)\<rparr>,
                 carrying := None\<rparr>)"
      using ok by (auto simp: world_ok_def grid_ok_def)
    have dirs: "world_ok (?w1\<lparr>agent_dir := d\<rparr>)" "world_ok (?w1\<lparr>agent_pos := q\<rparr>)" for d q
      using ok by (simp_all add: world_ok_def)
    consider "action = 0" | "action = 1" | "action = 2" | "action = 3" | "action = 4"
      | "action = 5" | "action = 6" | "action \<notin> {0, 1, 2, 3, 4, 5, 6}" by auto
    then show ?thesis
    proof cases
      case 1
      then show ?thesis using Inr r dirs by (simp add: minigrid_step_def)
    next
      case 2
      then show ?thesis using Inr r dirs by (simp add: minigrid_step_def)
    next
      case 3
      then show ?thesis using Inr r dirs ok1
        by (simp add: minigrid_step_def Let_def can_overlap_def split: option.splits)
    next
      case 4
      then show ?thesis using Inr r ok1 pick
        by (auto simp add: minigrid_step_def Let_def split: option.splits)
    next
      case 5
      then show ?thesis using Inr r ok1 drop
        by (auto simp add: minigrid_step_def Let_def)
    next
      case 6
      then show ?thesis using Inr r ok1 up
        by (auto simp add: minigrid_step_def Let_def split: option.splits world_obj.splits)
    next
      case 7
      then show ?thesis using Inr r ok1 by (simp add: minigrid_step_def)
    next
      case 8
      then show ?thesis using Inr r ok1 by (simp add: minigrid_step_def)
    qed
  qed
qed

lemma reachable_demo: "reach E demo_init s \<Longrightarrow> reachable E s"
  unfolding reachable_def using init_demo by blast

subsection \<open>The inventory observation counts the ledger\<close>

lemma index_from_distinct:
  assumes "distinct xs" "i < length xs"
  shows "index_from xs (xs ! i) k = Inr (k + int i)"
  using assms
proof (induction xs arbitrary: i k)
  case Nil
  then show ?case by simp
next
  case (Cons y ys)
  show ?case
  proof (cases i)
    case 0
    then show ?thesis by simp
  next
    case (Suc j)
    with Cons.prems have "ys ! j \<noteq> y" "j < length ys" "distinct ys" by auto
    with Cons.IH [of j "k + 1"] Suc show ?thesis by simp
  qed
qed

lemma resource_names_distinct: "distinct resource_names"
  by (simp add: resource_names_def)

lemma inventory_counts_nth:
  assumes "length obs = length resource_names"
  shows "length (inventory_counts items obs) = length resource_names
    \<and> (\<forall>j<length resource_names.
          inventory_counts items obs ! j = obs ! j + real (count_list items (resource_names ! j)))"
  using assms
proof (induction items arbitrary: obs)
  case Nil
  then show ?case by simp
next
  case (Cons item items)
  show ?case
  proof (cases "item \<in> set resource_names")
    case False
    then have "\<forall>j<length resource_names. item \<noteq> resource_names ! j" by (metis nth_mem)
    with False Cons show ?thesis by auto
  next
    case True
    then obtain i where i: "i < length resource_names" "resource_names ! i = item"
      by (auto simp: in_set_conv_nth)
    from index_from_distinct [OF resource_names_distinct i(1), of 0] i(2)
    have idx: "list_index resource_names item = Inr (int i)" by (simp add: list_index_def)
    let ?obs = "obs[i := obs ! i + 1]"
    have len: "length ?obs = length resource_names" using Cons.prems by simp
    have uniq: "(resource_names ! j = item) = (j = i)" if "j < length resource_names" for j
      using that i resource_names_distinct by (auto simp: nth_eq_iff_index_eq)
    have "inventory_counts (item # items) obs = inventory_counts items ?obs"
      using True idx by simp
    moreover have "?obs ! j + real (count_list items (resource_names ! j))
        = obs ! j + real (count_list (item # items) (resource_names ! j))"
      if "j < length resource_names" for j
      using that uniq [OF that] Cons.prems by (auto simp: nth_list_update)
    ultimately show ?thesis using Cons.IH [OF len] by simp
  qed
qed

lemma inventory_obs_nth:
  "length (get_inventory_observation s) = length resource_names"
  "j < length resource_names \<Longrightarrow>
     get_inventory_observation s ! j = real (count_list (inventory s) (resource_names ! j))"
  using inventory_counts_nth [of "replicate (length resource_names) 0" "inventory s"]
  by (simp_all add: get_inventory_observation_def)

lemma step_append_gated:
  assumes "k \<in> set resource_names"
    "count_list (inventory s) k < count_list (inventory (fst (step E a s))) k"
  shows "k \<notin> collected_resources_global s \<and> k \<in> collected_resources_global (fst (step E a s))"
proof -
  have k: "k \<noteq> ''Iron Sword''" "k \<noteq> ''Treasure''"
    using assms(1) by (auto simp: resource_names_def)
  have rm: "count_list (remove1 ''Iron Ore'' (remove1 ''Tree'' (inventory s))) k
      \<le> count_list (inventory s) k"
    by (simp add: count_list_remove1)
  consider "a = 4" | "a = 5" | "a = 3" | "a \<noteq> 4" "a \<noteq> 5" "a \<noteq> 3" by blast
  then show ?thesis
  proof cases
    case 1
    then show ?thesis using assms(2) k rm
      by (auto simp: step_craft return_obs_state super_step_frame split: sum.splits prod.splits if_splits)
  next
    case 2
    then show ?thesis using assms(2) k
      by (auto simp: step_open return_obs_state super_step_frame split: sum.splits prod.splits if_splits)
  next
    case 3
    then show ?thesis using assms(2)
      by (auto simp: step_toggle return_obs_state super_step_frame
          split: sum.splits prod.splits option.splits if_splits)
  next
    case 4
    then show ?thesis using assms(2) by (simp add: step_other super_step_frame)
  qed
qed

subsection \<open>The angular test, decided on integer vectors\<close>

lemma py_fmod_range:
  assumes "0 < m"
  shows "0 \<le> py_fmod x m" "py_fmod x m < m"
  using floor_divide_lower [OF assms, of x] floor_divide_upper [OF assms, of x]
  by (simp_all add: py_fmod_def algebra_simps)

lemma wrap_range: "- pi \<le> py_fmod (t + pi) (2 * pi) - pi" "py_fmod (t + pi) (2 * pi) - pi < pi"
  using py_fmod_range [of "2 * pi" "t + pi"] by simp_all

lemma wrap_cos: "cos (py_fmod (t + pi) (2 * pi) - pi) = cos t"
proof -
  have "py_fmod (t + pi) (2 * pi) - pi = t - 2 * pi * of_int \<lfloor>(t + pi) / (2 * pi)\<rfloor>"
    by (simp add: py_fmod_def)
  then show ?thesis by (simp add: cos_diff)
qed

lemma cos_window:
  assumes "- pi \<le> d" "d \<le> pi"
  shows "(\<bar>d\<bar> \<le> pi / 8) = (cos (pi / 8) \<le> cos d)"
proof -
  have "cos (pi / 8) \<le> cos \<bar>d\<bar> \<longleftrightarrow> \<bar>d\<bar> \<le> pi / 8"
    using assms by (intro cos_mono_le_eq) auto
  then show ?thesis by simp
qed

lemma in_beam_cos:
  "in_beam angle v = (cos (pi / 8) \<le> cos (arctan2 (of_int (snd v)) (of_int (fst v)) - angle))"
proof -
  let ?t = "arctan2 (of_int (snd v)) (of_int (fst v)) - angle"
  have "angle_diff angle v = py_fmod (?t + pi) (2 * pi) - pi" by (simp add: angle_diff_def)
  with wrap_range [of ?t] wrap_cos [of ?t] cos_window [of "angle_diff angle v"]
  show ?thesis by (simp add: in_beam_def)
qed

lemma arctan2_cos_sin:
  assumes "x \<noteq> 0 \<or> y \<noteq> 0"
  shows "cos (arctan2 y x) * sqrt (x\<^sup>2 + y\<^sup>2) = x \<and> sin (arctan2 y x) * sqrt (x\<^sup>2 + y\<^sup>2) = y"
proof -
  have pos: "sqrt (x\<^sup>2 + y\<^sup>2) = \<bar>x\<bar> * sqrt (1 + (y / x)\<^sup>2)" if "x \<noteq> 0"
  proof -
    have "x\<^sup>2 + y\<^sup>2 = x\<^sup>2 * (1 + (y / x)\<^sup>2)" using that by (simp add: field_simps power2_eq_square)
    then show ?thesis by (simp add: real_sqrt_mult)
  qed
  have "0 < 1 + (y / x)\<^sup>2" by (simp add: add_pos_nonneg)
  then have nz: "sqrt (1 + (y / x)\<^sup>2) \<noteq> 0" by simp
  consider "0 < x" | "x < 0" "0 \<le> y" | "x < 0" "y < 0" | "x = 0" "0 < y" | "x = 0" "y < 0"
    using assms by linarith
  then show ?thesis
  proof cases
    case 1
    then show ?thesis
      using nz by (simp add: arctan2_def cos_arctan sin_arctan pos)
  next
    case 2
    then show ?thesis
      using nz by (simp add: arctan2_def cos_arctan sin_arctan pos)
  next
    case 3
    then show ?thesis
      using nz by (simp add: arctan2_def cos_arctan sin_arctan pos cos_diff sin_diff)
  next
    case 4
    then show ?thesis
      by (simp add: arctan2_def)
  next
    case 5
    then show ?thesis
      by (simp add: arctan2_def)
  qed
qed

lemma cos_pi8: "0 < cos (pi / 8)" "(cos (pi / 8))\<^sup>2 = (2 + sqrt 2) / 4"
proof -
  show "0 < cos (pi / 8)" by (intro cos_gt_zero_pi) (use pi_gt_zero in auto)
  have "cos (2 * (pi / 8)) = 2 * (cos (pi / 8))\<^sup>2 - 1" by (rule cos_double_cos)
  moreover have "cos (2 * (pi / 8)) = sqrt 2 / 2" using cos_45 by simp
  ultimately show "(cos (pi / 8))\<^sup>2 = (2 + sqrt 2) / 4" by (simp add: field_simps)
qed

lemma cone_algebra:
  fixes p q :: real
  assumes "0 \<le> p"
  shows "((2 + sqrt 2) * (p\<^sup>2 + q\<^sup>2) \<le> 4 * p\<^sup>2) = ((p + \<bar>q\<bar>)\<^sup>2 \<le> 2 * p\<^sup>2)"
proof -
  define s :: real where "s = sqrt 2"
  have s: "s * s = 2" "0 < s" "1 < s" by (simp_all add: s_def)
  have s1: "0 \<le> (s - 1) * p" using s assms by simp
  have a: "((2 + s) * (p\<^sup>2 + q\<^sup>2) \<le> 4 * p\<^sup>2) = ((2 + s) * q\<^sup>2 \<le> (2 - s) * p\<^sup>2)"
    by (auto simp: algebra_simps)
  have b: "(2 - s) * p\<^sup>2 = (2 + s) * ((s - 1) * p)\<^sup>2"
  proof -
    have "(2 + s) * ((s - 1) * (s - 1)) = (2 + s) * (s * s) - 2 * (2 + s) * s + (2 + s)"
      by (simp add: algebra_simps)
    also have "\<dots> = 2 * (2 + s) - 4 * s - 2 * (s * s) + (2 + s)" using s(1) by (simp add: algebra_simps)
    also have "\<dots> = 2 - s" using s(1) by simp
    finally have "(2 + s) * ((s - 1) * (s - 1)) = 2 - s" .
    then have "(2 - s) * p\<^sup>2 = (2 + s) * ((s - 1) * (s - 1)) * p\<^sup>2" by simp
    then show ?thesis by (simp add: power2_eq_square algebra_simps)
  qed
  have c: "((2 + s) * q\<^sup>2 \<le> (2 + s) * ((s - 1) * p)\<^sup>2) = (q\<^sup>2 \<le> ((s - 1) * p)\<^sup>2)"
    using s(2) by (simp add: mult_le_cancel_left_pos)
  have d: "(q\<^sup>2 \<le> ((s - 1) * p)\<^sup>2) = (\<bar>q\<bar> \<le> (s - 1) * p)"
    using s1 abs_le_square_iff [of q "(s - 1) * p"] by simp
  have e: "((p + \<bar>q\<bar>)\<^sup>2 \<le> 2 * p\<^sup>2) = (p + \<bar>q\<bar> \<le> s * p)"
  proof -
    have "2 * p\<^sup>2 = (s * p)\<^sup>2" using s(1) by (simp add: power2_eq_square algebra_simps)
    moreover have "0 \<le> p + \<bar>q\<bar>" "0 \<le> s * p" using assms s(2) by simp_all
    ultimately show ?thesis using abs_le_square_iff [of "p + \<bar>q\<bar>" "s * p"] by simp
  qed
  have f: "(p + \<bar>q\<bar> \<le> s * p) = (\<bar>q\<bar> \<le> (s - 1) * p)" by (auto simp: algebra_simps)
  show ?thesis using a b c d e f by (simp add: s_def)
qed

lemma cone:
  fixes p q :: real
  shows "(cos (pi / 8) * sqrt (p\<^sup>2 + q\<^sup>2) \<le> p) = (0 \<le> p \<and> (p + \<bar>q\<bar>)\<^sup>2 \<le> 2 * p\<^sup>2)"
proof (cases "0 \<le> p")
  case False
  have "0 \<le> cos (pi / 8) * sqrt (p\<^sup>2 + q\<^sup>2)" using cos_pi8(1) by simp
  with False show ?thesis by auto
next
  case True
  let ?l = "cos (pi / 8) * sqrt (p\<^sup>2 + q\<^sup>2)"
  have l: "0 \<le> ?l" using cos_pi8(1) by simp
  have "(?l \<le> p) = (?l\<^sup>2 \<le> p\<^sup>2)"
    using l True abs_le_square_iff [of ?l p] by simp
  also have "?l\<^sup>2 = (2 + sqrt 2) / 4 * (p\<^sup>2 + q\<^sup>2)"
    by (simp add: power_mult_distrib cos_pi8(2))
  also have "((2 + sqrt 2) / 4 * (p\<^sup>2 + q\<^sup>2) \<le> p\<^sup>2) = ((2 + sqrt 2) * (p\<^sup>2 + q\<^sup>2) \<le> 4 * p\<^sup>2)"
    by (simp add: field_simps)
  also have "\<dots> = ((p + \<bar>q\<bar>)\<^sup>2 \<le> 2 * p\<^sup>2)" by (rule cone_algebra [OF True])
  finally show ?thesis using True by simp
qed

lemma cone_diag:
  fixes p q :: real
  shows "(cos (pi / 8) * sqrt ((p\<^sup>2 + q\<^sup>2) / 2) \<le> sqrt 2 / 2 * p)
       = (0 \<le> p \<and> (p + \<bar>q\<bar>)\<^sup>2 \<le> 2 * p\<^sup>2)"
proof -
  define s :: real where "s = sqrt 2"
  define r where "r = sqrt (p\<^sup>2 + q\<^sup>2)"
  define c where "c = cos (pi / 8)"
  have s: "s * s = 2" "0 < s" by (simp_all add: s_def)
  have "sqrt ((p\<^sup>2 + q\<^sup>2) / 2) = r / s" by (simp add: real_sqrt_divide r_def s_def)
  then have "(cos (pi / 8) * sqrt ((p\<^sup>2 + q\<^sup>2) / 2) \<le> sqrt 2 / 2 * p) = (c * (r / s) \<le> s / 2 * p)"
    by (simp add: c_def s_def)
  also have "\<dots> = (s * (c * (r / s)) \<le> s * (s / 2 * p))"
    using s(2) by (simp only: mult_le_cancel_left_pos)
  also have "s * (c * (r / s)) = c * r" using s(2) by simp
  also have "s * (s / 2 * p) = p"
  proof -
    have "s * (s / 2 * p) = (s * s) / 2 * p" by simp
    then show ?thesis using s(1) by simp
  qed
  finally show ?thesis by (simp add: c_def r_def cone)
qed

lemma in_beam_dot:
  assumes "v \<noteq> (0, 0)"
  shows "in_beam angle v =
     (cos (pi / 8) * sqrt ((of_int (fst v))\<^sup>2 + (of_int (snd v))\<^sup>2)
        \<le> of_int (fst v) * cos angle + of_int (snd v) * sin angle)"
proof -
  define x :: real where "x = of_int (fst v)"
  define y :: real where "y = of_int (snd v)"
  define r where "r = sqrt (x\<^sup>2 + y\<^sup>2)"
  have nz: "x \<noteq> 0 \<or> y \<noteq> 0" using assms by (auto simp: x_def y_def prod_eq_iff)
  then have "0 < x\<^sup>2 + y\<^sup>2" by (auto simp: sum_power2_gt_zero_iff)
  then have r: "0 < r" by (simp add: r_def)
  from arctan2_cos_sin [OF nz] have cs: "cos (arctan2 y x) * r = x" "sin (arctan2 y x) * r = y"
    by (simp_all add: r_def)
  have "cos (arctan2 y x - angle) * r
      = (cos (arctan2 y x) * r) * cos angle + (sin (arctan2 y x) * r) * sin angle"
    by (simp add: cos_diff algebra_simps)
  then have d: "cos (arctan2 y x - angle) * r = x * cos angle + y * sin angle" by (simp add: cs)
  have "in_beam angle v = (cos (pi / 8) \<le> cos (arctan2 y x - angle))"
    by (simp add: in_beam_cos x_def y_def)
  also have "\<dots> = (cos (pi / 8) * r \<le> cos (arctan2 y x - angle) * r)"
    using r by simp
  finally show ?thesis by (simp add: d) (simp add: r_def x_def y_def)
qed

lemma int_cone:
  "(0 \<le> real_of_int p \<and> (real_of_int p + \<bar>real_of_int q\<bar>)\<^sup>2 \<le> 2 * (real_of_int p)\<^sup>2)
     = (0 \<le> p \<and> (p + \<bar>q\<bar>)\<^sup>2 \<le> 2 * p\<^sup>2)"
proof -
  have "(real_of_int ((p + \<bar>q\<bar>)\<^sup>2) \<le> real_of_int (2 * p\<^sup>2)) = ((p + \<bar>q\<bar>)\<^sup>2 \<le> 2 * p\<^sup>2)"
    by (rule of_int_le_iff)
  then show ?thesis by simp
qed

lemma beam_axis:
  fixes c s :: int
  assumes "v \<noteq> (0, 0)" "cos angle = of_int c" "sin angle = of_int s" "c\<^sup>2 + s\<^sup>2 = 1"
  shows "in_beam angle v =
     (0 \<le> fst v * c + snd v * s
      \<and> (fst v * c + snd v * s + \<bar>snd v * c - fst v * s\<bar>)\<^sup>2 \<le> 2 * (fst v * c + snd v * s)\<^sup>2)"
proof -
  define p where "p = fst v * c + snd v * s"
  define q where "q = snd v * c - fst v * s"
  have "p\<^sup>2 + q\<^sup>2 = ((fst v)\<^sup>2 + (snd v)\<^sup>2) * (c\<^sup>2 + s\<^sup>2)"
    by (simp add: p_def q_def power2_eq_square algebra_simps)
  then have "p\<^sup>2 + q\<^sup>2 = (fst v)\<^sup>2 + (snd v)\<^sup>2" using assms(4) by simp
  then have "real_of_int (p\<^sup>2 + q\<^sup>2) = real_of_int ((fst v)\<^sup>2 + (snd v)\<^sup>2)" by simp
  then have a: "(real_of_int (fst v))\<^sup>2 + (real_of_int (snd v))\<^sup>2 = (real_of_int p)\<^sup>2 + (real_of_int q)\<^sup>2"
    by simp
  have b: "real_of_int (fst v) * cos angle + real_of_int (snd v) * sin angle = real_of_int p"
    unfolding assms(2,3) p_def by simp
  have "in_beam angle v = (0 \<le> p \<and> (p + \<bar>q\<bar>)\<^sup>2 \<le> 2 * p\<^sup>2)"
    unfolding in_beam_dot [OF assms(1)] a b cone int_cone ..
  then show ?thesis by (simp add: p_def q_def)
qed

lemma beam_diag:
  fixes c s :: int
  assumes "v \<noteq> (0, 0)" "cos angle = sqrt 2 / 2 * of_int c" "sin angle = sqrt 2 / 2 * of_int s"
    "c\<^sup>2 + s\<^sup>2 = 2"
  shows "in_beam angle v =
     (0 \<le> fst v * c + snd v * s
      \<and> (fst v * c + snd v * s + \<bar>snd v * c - fst v * s\<bar>)\<^sup>2 \<le> 2 * (fst v * c + snd v * s)\<^sup>2)"
proof -
  define p where "p = fst v * c + snd v * s"
  define q where "q = snd v * c - fst v * s"
  have "p\<^sup>2 + q\<^sup>2 = ((fst v)\<^sup>2 + (snd v)\<^sup>2) * (c\<^sup>2 + s\<^sup>2)"
    by (simp add: p_def q_def power2_eq_square algebra_simps)
  then have "p\<^sup>2 + q\<^sup>2 = 2 * ((fst v)\<^sup>2 + (snd v)\<^sup>2)" using assms(4) by simp
  then have "real_of_int (p\<^sup>2 + q\<^sup>2) = real_of_int (2 * ((fst v)\<^sup>2 + (snd v)\<^sup>2))" by simp
  then have a: "(real_of_int (fst v))\<^sup>2 + (real_of_int (snd v))\<^sup>2
      = ((real_of_int p)\<^sup>2 + (real_of_int q)\<^sup>2) / 2"
    by simp
  have b: "real_of_int (fst v) * cos angle + real_of_int (snd v) * sin angle
      = sqrt 2 / 2 * real_of_int p"
    unfolding assms(2,3) p_def by (simp add: algebra_simps)
  have "in_beam angle v = (0 \<le> p \<and> (p + \<bar>q\<bar>)\<^sup>2 \<le> 2 * p\<^sup>2)"
    unfolding in_beam_dot [OF assms(1)] a b cone_diag int_cone ..
  then show ?thesis by (simp add: p_def q_def)
qed

lemma in_beam_zero: "in_beam angle (0, 0) = (cos (pi / 8) \<le> cos angle)"
proof -
  have "arctan2 0 0 = 0" by (simp add: arctan2_def)
  then have "cos (arctan2 (of_int (snd (0::int, 0::int))) (of_int (fst (0::int, 0::int))) - angle) = cos angle"
    by simp
  then show ?thesis unfolding in_beam_cos by simp
qed

lemma cos_pi8_big: "sqrt 2 / 2 < cos (pi / 8)"
proof -
  have "(sqrt 2 / 2)\<^sup>2 = 2 / 4" by (simp add: power_divide)
  also have "\<dots> < (2 + sqrt 2) / 4" by simp
  also have "\<dots> = (cos (pi / 8))\<^sup>2" by (simp only: cos_pi8(2))
  finally have "(sqrt 2 / 2)\<^sup>2 < (cos (pi / 8))\<^sup>2" .
  moreover have "0 \<le> cos (pi / 8)" using cos_pi8(1) by (rule less_imp_le)
  ultimately show ?thesis by (rule power2_less_imp_less)
qed

lemma angles_nth: "k < 8 \<Longrightarrow> angles ! k = real k * (2 * pi / 8)"
  by (simp add: angles_def)

lemma beam_angles:
  "cos (real (0::nat) * (2 * pi / 8)) = 1" "sin (real (0::nat) * (2 * pi / 8)) = 0"
  "cos (real (1::nat) * (2 * pi / 8)) = sqrt 2 / 2" "sin (real (1::nat) * (2 * pi / 8)) = sqrt 2 / 2"
  "cos (real (2::nat) * (2 * pi / 8)) = 0" "sin (real (2::nat) * (2 * pi / 8)) = 1"
  "cos (real (3::nat) * (2 * pi / 8)) = - (sqrt 2 / 2)" "sin (real (3::nat) * (2 * pi / 8)) = sqrt 2 / 2"
  "cos (real (4::nat) * (2 * pi / 8)) = - 1" "sin (real (4::nat) * (2 * pi / 8)) = 0"
  "cos (real (5::nat) * (2 * pi / 8)) = - (sqrt 2 / 2)" "sin (real (5::nat) * (2 * pi / 8)) = - (sqrt 2 / 2)"
  "cos (real (6::nat) * (2 * pi / 8)) = 0" "sin (real (6::nat) * (2 * pi / 8)) = - 1"
  "cos (real (7::nat) * (2 * pi / 8)) = sqrt 2 / 2" "sin (real (7::nat) * (2 * pi / 8)) = - (sqrt 2 / 2)"
proof -
  have a: "real (1::nat) * (2 * pi / 8) = pi / 4" "real (2::nat) * (2 * pi / 8) = pi / 2"
    "real (3::nat) * (2 * pi / 8) = pi - pi / 4" "real (4::nat) * (2 * pi / 8) = pi"
    "real (5::nat) * (2 * pi / 8) = pi / 4 + pi" "real (6::nat) * (2 * pi / 8) = pi / 2 + pi"
    "real (7::nat) * (2 * pi / 8) = 2 * pi - pi / 4"
    by simp_all
  show "cos (real (0::nat) * (2 * pi / 8)) = 1" "sin (real (0::nat) * (2 * pi / 8)) = 0" by simp_all
  show "cos (real (1::nat) * (2 * pi / 8)) = sqrt 2 / 2" "sin (real (1::nat) * (2 * pi / 8)) = sqrt 2 / 2"
    unfolding a by (rule cos_45, rule sin_45)
  show "cos (real (2::nat) * (2 * pi / 8)) = 0" "sin (real (2::nat) * (2 * pi / 8)) = 1"
    unfolding a by (rule cos_pi_half, rule sin_pi_half)
  show "cos (real (3::nat) * (2 * pi / 8)) = - (sqrt 2 / 2)" "sin (real (3::nat) * (2 * pi / 8)) = sqrt 2 / 2"
    unfolding a cos_pi_minus sin_pi_minus cos_45 sin_45 by (rule refl, rule refl)
  show "cos (real (4::nat) * (2 * pi / 8)) = - 1" "sin (real (4::nat) * (2 * pi / 8)) = 0"
    unfolding a by (rule cos_pi, rule sin_pi)
  show "cos (real (5::nat) * (2 * pi / 8)) = - (sqrt 2 / 2)" "sin (real (5::nat) * (2 * pi / 8)) = - (sqrt 2 / 2)"
    unfolding a cos_periodic_pi sin_periodic_pi cos_45 sin_45 by (rule refl, rule refl)
  show "cos (real (6::nat) * (2 * pi / 8)) = 0" "sin (real (6::nat) * (2 * pi / 8)) = - 1"
    unfolding a cos_periodic_pi sin_periodic_pi cos_pi_half sin_pi_half by simp_all
  show "cos (real (7::nat) * (2 * pi / 8)) = sqrt 2 / 2" "sin (real (7::nat) * (2 * pi / 8)) = - (sqrt 2 / 2)"
    unfolding a cos_2pi_minus sin_2pi_minus cos_45 sin_45 by (rule refl, rule refl)
qed

lemma in_beam_iff:
  assumes "k < 8"
  shows "in_beam (angles ! k) v = beam_test k v"
proof -
  have neg: "\<not> cos (pi / 8) \<le> sqrt 2 / 2" "\<not> cos (pi / 8) \<le> 0" "\<not> cos (pi / 8) \<le> - (sqrt 2 / 2)"
    "\<not> cos (pi / 8) \<le> - 1"
  proof -
    have "0 < sqrt 2 / (2::real)" by simp
    then show "\<not> cos (pi / 8) \<le> sqrt 2 / 2" "\<not> cos (pi / 8) \<le> 0"
      "\<not> cos (pi / 8) \<le> - (sqrt 2 / 2)" "\<not> cos (pi / 8) \<le> - 1"
      using cos_pi8_big cos_pi8(1) by linarith+
  qed
  have one: "cos (pi / 8) \<le> 1" by (rule cos_le_one)
  have b0: "in_beam (angles ! 0) v = beam_test 0 v"
  proof -
    have a: "angles ! 0 = real (0::nat) * (2 * pi / 8)" by (simp add: angles_nth)
    have cs: "cos (angles ! 0) = 1" "sin (angles ! 0) = 0"
      unfolding a by (rule beam_angles(1), rule beam_angles(2))
    show ?thesis
    proof (cases "v = (0, 0)")
      case True
      then show ?thesis using neg one by (simp add: in_beam_zero cs beam_test_def)
    next
      case False
      have "cos (angles ! 0) = real_of_int (1)" "sin (angles ! 0) = real_of_int (0)"
        by (simp_all add: cs)
      from beam_axis [OF False this] False show ?thesis
        by (simp add: beam_test_def beam_dirs_def Let_def)
    qed
  qed
  have b1: "in_beam (angles ! Suc 0) v = beam_test (Suc 0) v"
  proof -
    have a: "angles ! Suc 0 = real (1::nat) * (2 * pi / 8)" by (simp add: angles_nth)
    have cs: "cos (angles ! Suc 0) = sqrt 2 / 2" "sin (angles ! Suc 0) = sqrt 2 / 2"
      unfolding a by (rule beam_angles(3), rule beam_angles(4))
    show ?thesis
    proof (cases "v = (0, 0)")
      case True
      then show ?thesis using neg one by (simp add: in_beam_zero cs beam_test_def)
    next
      case False
      have "cos (angles ! Suc 0) = sqrt 2 / 2 * real_of_int (1)" "sin (angles ! Suc 0) = sqrt 2 / 2 * real_of_int (1)"
        by (simp_all add: cs)
      from beam_diag [OF False this] False show ?thesis
        by (simp add: beam_test_def beam_dirs_def Let_def)
    qed
  qed
  have b2: "in_beam (angles ! 2) v = beam_test 2 v"
  proof -
    have a: "angles ! 2 = real (2::nat) * (2 * pi / 8)" by (simp add: angles_nth)
    have cs: "cos (angles ! 2) = 0" "sin (angles ! 2) = 1"
      unfolding a by (rule beam_angles(5), rule beam_angles(6))
    show ?thesis
    proof (cases "v = (0, 0)")
      case True
      then show ?thesis using neg one by (simp add: in_beam_zero cs beam_test_def)
    next
      case False
      have "cos (angles ! 2) = real_of_int (0)" "sin (angles ! 2) = real_of_int (1)"
        by (simp_all add: cs)
      from beam_axis [OF False this] False show ?thesis
        by (simp add: beam_test_def beam_dirs_def Let_def)
    qed
  qed
  have b3: "in_beam (angles ! 3) v = beam_test 3 v"
  proof -
    have a: "angles ! 3 = real (3::nat) * (2 * pi / 8)" by (simp add: angles_nth)
    have cs: "cos (angles ! 3) = - (sqrt 2 / 2)" "sin (angles ! 3) = sqrt 2 / 2"
      unfolding a by (rule beam_angles(7), rule beam_angles(8))
    show ?thesis
    proof (cases "v = (0, 0)")
      case True
      then show ?thesis using neg one by (simp add: in_beam_zero cs beam_test_def)
    next
      case False
      have "cos (angles ! 3) = sqrt 2 / 2 * real_of_int (- 1)" "sin (angles ! 3) = sqrt 2 / 2 * real_of_int (1)"
        by (simp_all add: cs)
      from beam_diag [OF False this] False show ?thesis
        by (simp add: beam_test_def beam_dirs_def Let_def)
    qed
  qed
  have b4: "in_beam (angles ! 4) v = beam_test 4 v"
  proof -
    have a: "angles ! 4 = real (4::nat) * (2 * pi / 8)" by (simp add: angles_nth)
    have cs: "cos (angles ! 4) = - 1" "sin (angles ! 4) = 0"
      unfolding a by (rule beam_angles(9), rule beam_angles(10))
    show ?thesis
    proof (cases "v = (0, 0)")
      case True
      then show ?thesis using neg one by (simp add: in_beam_zero cs beam_test_def)
    next
      case False
      have "cos (angles ! 4) = real_of_int (- 1)" "sin (angles ! 4) = real_of_int (0)"
        by (simp_all add: cs)
      from beam_axis [OF False this] False show ?thesis
        by (simp add: beam_test_def beam_dirs_def Let_def)
    qed
  qed
  have b5: "in_beam (angles ! 5) v = beam_test 5 v"
  proof -
    have a: "angles ! 5 = real (5::nat) * (2 * pi / 8)" by (simp add: angles_nth)
    have cs: "cos (angles ! 5) = - (sqrt 2 / 2)" "sin (angles ! 5) = - (sqrt 2 / 2)"
      unfolding a by (rule beam_angles(11), rule beam_angles(12))
    show ?thesis
    proof (cases "v = (0, 0)")
      case True
      then show ?thesis using neg one by (simp add: in_beam_zero cs beam_test_def)
    next
      case False
      have "cos (angles ! 5) = sqrt 2 / 2 * real_of_int (- 1)" "sin (angles ! 5) = sqrt 2 / 2 * real_of_int (- 1)"
        by (simp_all add: cs)
      from beam_diag [OF False this] False show ?thesis
        by (simp add: beam_test_def beam_dirs_def Let_def)
    qed
  qed
  have b6: "in_beam (angles ! 6) v = beam_test 6 v"
  proof -
    have a: "angles ! 6 = real (6::nat) * (2 * pi / 8)" by (simp add: angles_nth)
    have cs: "cos (angles ! 6) = 0" "sin (angles ! 6) = - 1"
      unfolding a by (rule beam_angles(13), rule beam_angles(14))
    show ?thesis
    proof (cases "v = (0, 0)")
      case True
      then show ?thesis using neg one by (simp add: in_beam_zero cs beam_test_def)
    next
      case False
      have "cos (angles ! 6) = real_of_int (0)" "sin (angles ! 6) = real_of_int (- 1)"
        by (simp_all add: cs)
      from beam_axis [OF False this] False show ?thesis
        by (simp add: beam_test_def beam_dirs_def Let_def)
    qed
  qed
  have b7: "in_beam (angles ! 7) v = beam_test 7 v"
  proof -
    have a: "angles ! 7 = real (7::nat) * (2 * pi / 8)" by (simp add: angles_nth)
    have cs: "cos (angles ! 7) = sqrt 2 / 2" "sin (angles ! 7) = - (sqrt 2 / 2)"
      unfolding a by (rule beam_angles(15), rule beam_angles(16))
    show ?thesis
    proof (cases "v = (0, 0)")
      case True
      then show ?thesis using neg one by (simp add: in_beam_zero cs beam_test_def)
    next
      case False
      have "cos (angles ! 7) = sqrt 2 / 2 * real_of_int (1)" "sin (angles ! 7) = sqrt 2 / 2 * real_of_int (- 1)"
        by (simp_all add: cs)
      from beam_diag [OF False this] False show ?thesis
        by (simp add: beam_test_def beam_dirs_def Let_def)
    qed
  qed
  from assms consider "k = 0" | "k = 1" | "k = 2" | "k = 3" | "k = 4" | "k = 5" | "k = 6" | "k = 7"
    by linarith
  then show ?thesis using b0 b1 b2 b3 b4 b5 b6 b7 by cases simp_all
qed

subsection \<open>What a beam's loop computes\<close>



lemma beam_scan:
  assumes "lidar_beam g (Some a) angle cs acc = Inr acc'"
  shows "((\<forall>c\<in>set cs. \<not> (hits g a angle c \<and> closer (dist_to a c) (fst acc))) \<and> acc' = acc)
    \<or> (\<exists>pre c post obj. cs = pre @ c # post \<and> hits g a angle c \<and> cells g c = Some obj
          \<and> closer (dist_to a c) (fst acc)
          \<and> get_entity_index obj = Inr (snd acc') \<and> fst acc' = Some (dist_to a c)
          \<and> (\<forall>c'\<in>set pre. hits g a angle c' \<longrightarrow> dist_to a c < dist_to a c')
          \<and> (\<forall>c'\<in>set post. hits g a angle c' \<longrightarrow> dist_to a c \<le> dist_to a c'))"
  using assms
proof (induction cs arbitrary: acc)
  case Nil
  then show ?case by simp
next
  case (Cons c cs)
  show ?case
  proof (cases "hits g a angle c \<and> closer (dist_to a c) (fst acc)")
    case False
    then have "lidar_beam g (Some a) angle (c # cs) acc = lidar_beam g (Some a) angle cs acc"
      by (auto simp: hits_def dist_to_def Let_def split: option.splits)
    with Cons.prems have r: "lidar_beam g (Some a) angle cs acc = Inr acc'" by simp
    from Cons.IH [OF r] show ?thesis
    proof
      assume "(\<forall>c\<in>set cs. \<not> (hits g a angle c \<and> closer (dist_to a c) (fst acc))) \<and> acc' = acc"
      with False show ?thesis by auto
    next
      assume "\<exists>pre w post obj. cs = pre @ w # post \<and> hits g a angle w \<and> cells g w = Some obj
          \<and> closer (dist_to a w) (fst acc)
          \<and> get_entity_index obj = Inr (snd acc') \<and> fst acc' = Some (dist_to a w)
          \<and> (\<forall>c'\<in>set pre. hits g a angle c' \<longrightarrow> dist_to a w < dist_to a c')
          \<and> (\<forall>c'\<in>set post. hits g a angle c' \<longrightarrow> dist_to a w \<le> dist_to a c')"
      then obtain pre w post obj where w: "cs = pre @ w # post" "hits g a angle w" "cells g w = Some obj"
          "closer (dist_to a w) (fst acc)"
          "get_entity_index obj = Inr (snd acc')" "fst acc' = Some (dist_to a w)"
          "\<forall>c'\<in>set pre. hits g a angle c' \<longrightarrow> dist_to a w < dist_to a c'"
          "\<forall>c'\<in>set post. hits g a angle c' \<longrightarrow> dist_to a w \<le> dist_to a c'"
        by blast
      have "dist_to a w < dist_to a c" if "hits g a angle c"
        using that False w(4) by (auto simp: closer_def split: option.splits)
      with w have "c # cs = (c # pre) @ w # post \<and> hits g a angle w \<and> cells g w = Some obj
          \<and> closer (dist_to a w) (fst acc)
          \<and> get_entity_index obj = Inr (snd acc') \<and> fst acc' = Some (dist_to a w)
          \<and> (\<forall>c'\<in>set (c # pre). hits g a angle c' \<longrightarrow> dist_to a w < dist_to a c')
          \<and> (\<forall>c'\<in>set post. hits g a angle c' \<longrightarrow> dist_to a w \<le> dist_to a c')"
        by simp
      then show ?thesis by blast
    qed
  next
    case True
    then obtain obj where obj: "cells g c = Some obj" by (auto simp: hits_def)
    from True have t: "in_beam angle (fst c - fst a, snd c - snd a)"
      "closer (norm2 (fst c - fst a, snd c - snd a)) (fst acc)"
      by (simp_all add: hits_def dist_to_def)
    show ?thesis
    proof (cases "get_entity_index obj")
      case (Inl e)
      with obj t Cons.prems show ?thesis by (simp add: Let_def)
    next
      case (Inr idx)
      let ?acc1 = "(Some (dist_to a c), idx)"
      from obj t Inr Cons.prems have r: "lidar_beam g (Some a) angle cs ?acc1 = Inr acc'"
        by (simp add: Let_def dist_to_def)
      from Cons.IH [OF r] show ?thesis
      proof
        assume n: "(\<forall>c'\<in>set cs. \<not> (hits g a angle c' \<and> closer (dist_to a c') (fst ?acc1)))
            \<and> acc' = ?acc1"
        then have "\<forall>c'\<in>set cs. hits g a angle c' \<longrightarrow> dist_to a c \<le> dist_to a c'"
          by (auto simp: closer_def)
        with n True obj Inr have "c # cs = [] @ c # cs \<and> hits g a angle c \<and> cells g c = Some obj
            \<and> closer (dist_to a c) (fst acc)
            \<and> get_entity_index obj = Inr (snd acc') \<and> fst acc' = Some (dist_to a c)
            \<and> (\<forall>c'\<in>set []. hits g a angle c' \<longrightarrow> dist_to a c < dist_to a c')
            \<and> (\<forall>c'\<in>set cs. hits g a angle c' \<longrightarrow> dist_to a c \<le> dist_to a c')"
          by simp
        then show ?thesis by blast
      next
        assume "\<exists>pre w post obj. cs = pre @ w # post \<and> hits g a angle w \<and> cells g w = Some obj
            \<and> closer (dist_to a w) (fst ?acc1)
            \<and> get_entity_index obj = Inr (snd acc') \<and> fst acc' = Some (dist_to a w)
            \<and> (\<forall>c'\<in>set pre. hits g a angle c' \<longrightarrow> dist_to a w < dist_to a c')
            \<and> (\<forall>c'\<in>set post. hits g a angle c' \<longrightarrow> dist_to a w \<le> dist_to a c')"
        then obtain pre w post obj' where w: "cs = pre @ w # post" "hits g a angle w"
            "cells g w = Some obj'" "closer (dist_to a w) (fst ?acc1)"
            "get_entity_index obj' = Inr (snd acc')" "fst acc' = Some (dist_to a w)"
            "\<forall>c'\<in>set pre. hits g a angle c' \<longrightarrow> dist_to a w < dist_to a c'"
            "\<forall>c'\<in>set post. hits g a angle c' \<longrightarrow> dist_to a w \<le> dist_to a c'"
          by blast
        from w(4) have lt: "dist_to a w < dist_to a c" by (simp add: closer_def)
        with True have "closer (dist_to a w) (fst acc)"
          by (auto simp: closer_def split: option.splits)
        with w lt have "c # cs = (c # pre) @ w # post \<and> hits g a angle w \<and> cells g w = Some obj'
            \<and> closer (dist_to a w) (fst acc)
            \<and> get_entity_index obj' = Inr (snd acc') \<and> fst acc' = Some (dist_to a w)
            \<and> (\<forall>c'\<in>set (c # pre). hits g a angle c' \<longrightarrow> dist_to a w < dist_to a c')
            \<and> (\<forall>c'\<in>set post. hits g a angle c' \<longrightarrow> dist_to a w \<le> dist_to a c')"
          by simp
        then show ?thesis by blast
      qed
    qed
  qed
qed

lemma first_nearest_split:
  assumes "order = pre @ c # post" "hits g a angle c"
    "\<forall>c'\<in>set pre. hits g a angle c' \<longrightarrow> dist_to a c < dist_to a c'"
    "\<forall>c'\<in>set post. hits g a angle c' \<longrightarrow> dist_to a c \<le> dist_to a c'"
  shows "first_nearest g a angle order = Some c"
proof -
  let ?P = "\<lambda>c. hits g a angle c \<and> (\<forall>c'\<in>set order. hits g a angle c' \<longrightarrow> dist_to a c \<le> dist_to a c')"
  have pc: "?P c" using assms by (auto intro: less_imp_le)
  have "\<not> ?P x" if "x \<in> set pre" for x
  proof
    assume x: "?P x"
    with assms(3) that have "dist_to a c < dist_to a x" by blast
    moreover from x assms(1,2) have "dist_to a x \<le> dist_to a c" by simp
    ultimately show False by simp
  qed
  then have "List.find ?P pre = None" by (simp add: find_None_iff)
  then have "List.find ?P (pre @ c # post) = Some c" using pc
    by (induction pre) (auto split: if_splits)
  then show ?thesis unfolding first_nearest_def assms(1) .
qed

lemma first_nearest_none:
  "\<forall>c\<in>set order. \<not> hits g a angle c \<Longrightarrow> first_nearest g a angle order = None"
  by (simp add: first_nearest_def find_None_iff)

lemma scan_order_sorted: "sorted_wrt scan_before (scan_order g)"
proof -
  have "sorted_wrt scan_before [(x, y). x \<leftarrow> xs, y \<leftarrow> ys]"
    if "sorted_wrt (<) xs" "sorted_wrt (<) ys" for xs ys :: "int list"
    using that
  proof (induction xs)
    case Nil
    then show ?case by simp
  next
    case (Cons x xs)
    have "sorted_wrt scan_before (map (Pair x) ys)"
      using Cons.prems(2) by (simp add: sorted_wrt_map scan_before_def)
    moreover have "\<forall>p\<in>set (map (Pair x) ys).
        \<forall>q\<in>set (concat (map (\<lambda>x. map (Pair x) ys) xs)). scan_before p q"
      using Cons.prems(1) by (auto simp: scan_before_def)
    moreover have "sorted_wrt scan_before (concat (map (\<lambda>x. map (Pair x) ys) xs))"
      using Cons by simp
    ultimately show ?case by (simp add: sorted_wrt_append)
  qed
  then show ?thesis by (simp add: scan_order_def)
qed

lemma scan_order_set: "set (scan_order g) = {c. in_bounds g c}"
  by (auto simp: scan_order_def in_bounds_def)

subsection \<open>The sensor on the run's grid\<close>

lemma upto_0_11: "[0..11] = [0, 1, 2, 3, 4, 5, 6, 7, 8, 9, 10, 11 :: int]"
  by (simp add: upto_rec1)

lemma scan_order_demo:
  "scan_order demo_grid = [(x, y). x \<leftarrow> [0, 1, 2, 3, 4, 5, 6, 7, 8, 9, 10, 11], y \<leftarrow> [0, 1, 2, 3, 4, 5, 6, 7, 8, 9, 10, 11]]"
  by (simp add: scan_order_def demo_grid_dims upto_0_11)

lemma row_major_demo:
  "row_major demo_grid = [(x, y). y \<leftarrow> [0, 1, 2, 3, 4, 5, 6, 7, 8, 9, 10, 11], x \<leftarrow> [0, 1, 2, 3, 4, 5, 6, 7, 8, 9, 10, 11]]"
  by (simp add: row_major_def demo_grid_dims upto_0_11)

lemma in_beam_num:
  "in_beam (angles ! 0) v = beam_test 0 v"
  "in_beam (angles ! Suc 0) v = beam_test (Suc 0) v"
  "in_beam (angles ! 6) v = beam_test 6 v"
  by (rule in_beam_iff, simp)+

lemmas beam_eval = in_beam_num beam_test_def beam_dirs_def demo_grid_cells closer_def norm2_def
  get_entity_index_def list_index_def resource_names_def Let_def hits_def dist_to_def

lemma reset_demo_at:
  assumes "cells demo_grid (int ax mod 12, int ay mod 12) = None"
  shows "reset (demo_draws_at ax ay d) demo_init =
     Some (demo demo_grid (Some (int ax mod 12, int ay mod 12)) (Some (int d mod 4)) 0 1 {} False [],
           get_obs (demo demo_grid (Some (int ax mod 12, int ay mod 12)) (Some (int d mod 4)) 0 1 {} False []))"
proof -
  let ?s1 = "demo (new_Grid 12 12) None None 0 1 {} False []"
  have s1: "demo_init\<lparr>inventory := [], sword_crafted := False,
       current_episode := current_episode demo_init + 1\<rparr> = ?s1"
    by (simp add: demo_def demo_init_def)
  have po: "place_objs ((engine ?s1)\<lparr>grid := wall_rect 0 0 12 12 (new_Grid 12 12)\<rparr>)
      gen_objects (demo_draws_at ax ay d)
    = Some ((engine ?s1)\<lparr>grid := demo_grid\<rparr>, Inr [ax, ay, d])"
    by (simp add: gen_objects_def demo_draws_at_def place_obj_def demo_def wall_cells wall_dims
      demo_grid_def new_Grid_simps place_loop_Cons del: place_loop.simps)
  have gg: "gen_grid ?s1 12 12 (demo_draws_at ax ay d) =
      Some (demo demo_grid (Some (1, 1)) (Some 0) 0 1 {} False [], Inr [ax, ay, d])"
    unfolding gen_grid_def using po
    by (simp add: gen_agent_def Grid_get_def in_bounds_def demo_grid_dims demo_grid_cells demo_def)
  have pa: "place_agent (engine (demo demo_grid (Some (1, 1)) (Some 0) 0 1 {} False [])) [ax, ay, d]
     = Some (engine (demo demo_grid (Some (int ax mod 12, int ay mod 12)) (Some (int d mod 4)) 0 1 {} False []),
             Inr [])"
  proof -
    have "0 \<le> int ax mod 12" by simp
    then have "- 1 \<noteq> int ax mod 12" by linarith
    with assms show ?thesis
      by (simp add: place_agent_def place_obj_def place_loop_Cons demo_def demo_grid_dims
          clear_empty del: place_loop.simps)
  qed
  show ?thesis
    unfolding reset_def Let_def s1
    by (simp add: gg pa demo_sel del: One_nat_def) (simp add: demo_def)
qed

lemma reachable_demo_at:
  assumes "cells demo_grid (int ax mod 12, int ay mod 12) = None"
  shows "reachable E (demo demo_grid (Some (int ax mod 12, int ay mod 12)) (Some (int d mod 4)) 0 1 {} False [])"
  using reach_reset [OF reach_refl reset_demo_at [OF assms, of d], of E] by (rule reachable_demo)

lemma beam1_demo:
  "lidar_beam demo_grid (Some (5, 4)) (angles ! Suc 0) (scan_order demo_grid) (None, - 1)
     = Inr (Some (sqrt 5), 4)"
  by (simp add: scan_order_demo beam_eval)

lemma nearest_scan_demo:
  "first_nearest demo_grid (5, 4) (angles ! Suc 0) (scan_order demo_grid) = Some (6, 6)"
  by (simp add: first_nearest_def scan_order_demo beam_eval)

lemma nearest_row_demo:
  "first_nearest demo_grid (5, 4) (angles ! Suc 0) (row_major demo_grid) = Some (7, 5)"
  by (simp add: first_nearest_def row_major_demo beam_eval)


lemma beam_result:
  assumes "lidar_beam g (Some a) angle (scan_order g) (None, - 1) = Inr acc"
  shows "(first_nearest g a angle (scan_order g) = None \<and> acc = (None, - 1)
          \<and> (\<forall>c\<in>set (scan_order g). \<not> hits g a angle c))
    \<or> (\<exists>pre c post obj. scan_order g = pre @ c # post
          \<and> first_nearest g a angle (scan_order g) = Some c
          \<and> hits g a angle c \<and> cells g c = Some obj
          \<and> get_entity_index obj = Inr (snd acc) \<and> fst acc = Some (dist_to a c)
          \<and> (\<forall>c'\<in>set pre. hits g a angle c' \<longrightarrow> dist_to a c < dist_to a c')
          \<and> (\<forall>c'\<in>set post. hits g a angle c' \<longrightarrow> dist_to a c \<le> dist_to a c'))"
proof -
  from beam_scan [OF assms] show ?thesis
  proof
    assume "(\<forall>c\<in>set (scan_order g). \<not> (hits g a angle c \<and> closer (dist_to a c) (fst (None, - 1))))
        \<and> acc = (None, - 1)"
    then have "(\<forall>c\<in>set (scan_order g). \<not> hits g a angle c) \<and> acc = (None, - 1)"
      by (simp add: closer_def)
    then show ?thesis using first_nearest_none [of "scan_order g" g a angle] by blast
  next
    assume "\<exists>pre c post obj. scan_order g = pre @ c # post \<and> hits g a angle c \<and> cells g c = Some obj
          \<and> closer (dist_to a c) (fst (None, - 1))
          \<and> get_entity_index obj = Inr (snd acc) \<and> fst acc = Some (dist_to a c)
          \<and> (\<forall>c'\<in>set pre. hits g a angle c' \<longrightarrow> dist_to a c < dist_to a c')
          \<and> (\<forall>c'\<in>set post. hits g a angle c' \<longrightarrow> dist_to a c \<le> dist_to a c')"
    then obtain pre c post obj where w: "scan_order g = pre @ c # post" "hits g a angle c"
        "cells g c = Some obj" "get_entity_index obj = Inr (snd acc)" "fst acc = Some (dist_to a c)"
        "\<forall>c'\<in>set pre. hits g a angle c' \<longrightarrow> dist_to a c < dist_to a c'"
        "\<forall>c'\<in>set post. hits g a angle c' \<longrightarrow> dist_to a c \<le> dist_to a c'"
      by blast
    from first_nearest_split [OF w(1,2,6,7)] w show ?thesis by blast
  qed
qed

subsection \<open>The cell straight ahead, and the rows of the sensor output\<close>

















section \<open>The claims\<close>

text \<open>
  C7. Across any sequence of \<^verbatim>\<open>reset\<close> and \<^verbatim>\<open>step\<close> calls the global collection record
  only grows: every kind in it before is in it after; and a \<^verbatim>\<open>reset\<close> that comes back
  (returning or raising) leaves it as it was.
\<close>

theorem global_record_monotone:
  "(reach E s t \<longrightarrow> collected_resources_global s \<subseteq> collected_resources_global t)
   \<and> (reset ds r = Some (r', out) \<longrightarrow> collected_resources_global r' = collected_resources_global r)"
  using reach_global_mono [of E s t] reset_frame [of ds r r' out] by blast

theorem global_record_monotone_witness:
  "reach minigrid_step demo_init
     (demo (clear_cell (5, 5) demo_grid) (Some (6, 5)) (Some 2) 0 1 {''Iron Ore''} False [''Iron Ore''])
   \<and> collected_resources_global demo_init
       \<subseteq> collected_resources_global
           (demo (clear_cell (5, 5) demo_grid) (Some (6, 5)) (Some 2) 0 1 {''Iron Ore''} False [''Iron Ore''])
   \<and> reset (demo_draws 2)
        (demo (clear_cell (5, 5) demo_grid) (Some (6, 5)) (Some 2) 0 1 {''Iron Ore''} False [''Iron Ore''])
       = Some (demo demo_grid (Some (6, 5)) (Some 2) 0 2 {''Iron Ore''} False [],
               get_obs (demo demo_grid (Some (6, 5)) (Some 2) 0 2 {''Iron Ore''} False []))
   \<and> collected_resources_global (demo demo_grid (Some (6, 5)) (Some 2) 0 2 {''Iron Ore''} False [])
       = {''Iron Ore''}"
  using global_record_monotone [of minigrid_step demo_init
      "demo (clear_cell (5, 5) demo_grid) (Some (6, 5)) (Some 2) 0 1 {''Iron Ore''} False [''Iron Ore'']"
      "demo_draws 2"
      "demo (clear_cell (5, 5) demo_grid) (Some (6, 5)) (Some 2) 0 1 {''Iron Ore''} False [''Iron Ore'']"
      "demo demo_grid (Some (6, 5)) (Some 2) 0 2 {''Iron Ore''} False []"
      "get_obs (demo demo_grid (Some (6, 5)) (Some 2) 0 2 {''Iron Ore''} False [])"]
    reach_demo2
    reset_demo [of "Some (6, 5)" 2 "clear_cell (5, 5) demo_grid" "Some 2" 0 1 "{''Iron Ore''}" False "[''Iron Ore'']"]
  by (simp add: demo_sel)

subsection \<open>Facing an object\<close>

lemma is_Box_faces:
  "front_cell (engine s) = Inr (p, c) \<Longrightarrow> is_Box c col = faces s (Box col)"
  by (auto simp: is_Box_def faces_def split: option.splits world_obj.splits)

lemma faces_front:
  "faces s obj \<Longrightarrow> \<exists>p. front_cell (engine s) = Inr (p, Some obj)"
  by (simp add: faces_def)

lemma faces_none: "front_cell (engine s) = Inl e \<Longrightarrow> \<not> faces s obj"
  by (simp add: faces_def)

lemma return_obs_front:
  assumes "world_ok (engine s)" "front_cell (engine s) = Inr r" "grid (engine s') = grid (engine s)"
    "agent_pos (engine s') = agent_pos (engine s)"
  shows "\<exists>obs. return_obs s' rw t u = (s', Inr (obs, rw, t, u))"
proof -
  from front_cell_pos [OF assms(2)] obtain a where "agent_pos (engine s') = Some a"
    using assms(4) by auto
  moreover have "grid_ok (grid (engine s'))" using assms(1,3) by (simp add: world_ok_def)
  ultimately show ?thesis using return_obs_ok by blast
qed

lemma craft_changes_ledger:
  assumes "''Tree'' \<in> set xs" "''Iron Ore'' \<in> set xs"
  shows "remove1 ''Iron Ore'' (remove1 ''Tree'' xs) @ [''Iron Sword''] \<noteq> xs"
proof -
  have "''Iron Ore'' \<in> set (remove1 ''Tree'' xs)" using assms(2) by (simp add: in_set_remove1)
  then have "length (remove1 ''Iron Ore'' (remove1 ''Tree'' xs)) = length (remove1 ''Tree'' xs) - 1"
    by (simp add: length_remove1)
  moreover have "length (remove1 ''Tree'' xs) = length xs - 1" using assms(1) by (simp add: length_remove1)
  moreover have "0 < length (remove1 ''Tree'' xs)"
    using \<open>''Iron Ore'' \<in> set (remove1 ''Tree'' xs)\<close> by (rule length_pos_if_in_set)
  ultimately have "length (remove1 ''Iron Ore'' (remove1 ''Tree'' xs) @ [''Iron Sword'']) \<noteq> length xs"
    by simp
  then show ?thesis by metis
qed


lemma craft_result_ledger:
  assumes "ledger_ok s" "sword_ok s" "\<not> sword_crafted s"
    "''Tree'' \<in> set (inventory s)" "''Iron Ore'' \<in> set (inventory s)"
  defines "xs \<equiv> remove1 ''Iron Ore'' (remove1 ''Tree'' (inventory s)) @ [''Iron Sword'']"
  shows "''Tree'' \<notin> set xs" "''Iron Ore'' \<notin> set xs" "count_list xs ''Iron Sword'' = 1"
proof -
  have c: "count_list (inventory s) ''Tree'' \<le> 1" "count_list (inventory s) ''Iron Ore'' \<le> 1"
    using assms(1) by (simp_all add: ledger_ok_def resource_names_def)
  have "count_list xs ''Tree'' = 0" using c(1) assms(4)
    by (simp add: xs_def count_list_remove1)
  then show "''Tree'' \<notin> set xs" by (simp add: count_list_zero)
  have "count_list xs ''Iron Ore'' = 0" using c(2) assms(5)
    by (simp add: xs_def count_list_remove1)
  then show "''Iron Ore'' \<notin> set xs" by (simp add: count_list_zero)
  have "''Iron Sword'' \<notin> set (inventory s)" using assms(2,3) by (auto simp: sword_ok_def)
  then have "count_list (inventory s) ''Iron Sword'' = 0" by (simp add: count_list_zero)
  then show "count_list xs ''Iron Sword'' = 1" by (simp add: xs_def count_list_remove1)
qed


lemma faces_demo:
  assumes "width g = 12" "height g = 12"
  shows "faces (demo g (Some (6, 5)) (Some 0) n ep rec cr led) obj = (cells g (7, 5) = Some obj)"
    "faces (demo g (Some (6, 5)) (Some 1) n ep rec cr led) obj = (cells g (6, 6) = Some obj)"
    "faces (demo g (Some (6, 5)) (Some 2) n ep rec cr led) obj = (cells g (5, 5) = Some obj)"
    "faces (demo g (Some (6, 5)) (Some 3) n ep rec cr led) obj = (cells g (6, 4) = Some obj)"
  using assms
  by (auto simp: faces_def demo_sel front_cell_def front_pos_def dir_vec_def DIR_TO_VEC_def
      Grid_get_def in_bounds_def)

text \<open>
  C1. A craft\_sword step changes the ledger if and only if the agent faces the crafting
  table, the ledger holds "Tree" and "Iron Ore", and the sword-crafted flag is unset.
  After such a step "Tree" and "Iron Ore" are gone from the ledger, "Iron Sword" is in it
  exactly once, the flag is set, and the step returns the reward \<open>-1 + 50\<close> when the
  episode index is below \<^verbatim>\<open>max_reward_episodes\<close> and \<open>-1 + 0\<close> otherwise, not
  terminated.
\<close>

theorem craft_sword_spec:
  assumes "engine_ok E" "reachable E s"
  shows "((inventory (fst (step E 4 s)) \<noteq> inventory s) = craft_ready s)
    \<and> (craft_ready s \<longrightarrow>
          ''Tree'' \<notin> set (inventory (fst (step E 4 s)))
        \<and> ''Iron Ore'' \<notin> set (inventory (fst (step E 4 s)))
        \<and> count_list (inventory (fst (step E 4 s))) ''Iron Sword'' = 1
        \<and> sword_crafted (fst (step E 4 s))
        \<and> (\<exists>obs. snd (step E 4 s) =
               Inr (obs, - 1 + (if current_episode s < max_reward_episodes s then 50 else 0),
                    False, False)))"
proof (cases "front_cell (engine s)")
  case (Inl e)
  then show ?thesis by (simp add: step_craft craft_ready_def faces_none)
next
  case (Inr r)
  obtain p c where r: "r = (p, c)" by (cases r)
  note fc = Inr [unfolded r]
  note box = is_Box_faces [OF fc, of "''blue''"]
  show ?thesis
  proof (cases "craft_ready s")
    case False
    then show ?thesis using fc box
      by (auto simp: step_craft craft_ready_def return_obs_state super_step_frame)
  next
    case True
    let ?s' = "s\<lparr>inventory := remove1 ''Iron Ore'' (remove1 ''Tree'' (inventory s)) @ [''Iron Sword''],
                  sword_crafted := True\<rparr>"
    let ?rw = "if current_episode s < max_reward_episodes s then 49 else - 1 :: real"
    from True have t: "''Tree'' \<in> set (inventory s)" "''Iron Ore'' \<in> set (inventory s)"
      "\<not> sword_crafted s" "is_Box c ''blue''"
      using box by (simp_all add: craft_ready_def)
    have st: "step E 4 s = return_obs ?s' ?rw False False"
      using fc t by (simp add: step_craft)
    from return_obs_front [OF world_ok_reachable [OF assms] fc, of ?s' ?rw False False]
    obtain obs where obs: "return_obs ?s' ?rw False False = (?s', Inr (obs, ?rw, False, False))"
      by auto
    note led = craft_result_ledger [OF ledger_ok_reachable [OF assms(2)]
        sword_ok_reachable [OF assms] t(3) t(1) t(2)]
    have "inventory ?s' \<noteq> inventory s" using craft_changes_ledger [OF t(1) t(2)] by simp
    then show ?thesis using True led st obs by auto
  qed
qed

theorem craft_sword_spec_witness:
  "engine_ok minigrid_step
   \<and> reachable minigrid_step
       (demo (clear_cell (6, 6) (clear_cell (5, 5) demo_grid)) (Some (6, 5)) (Some 0) 2 1
          {''Tree'', ''Iron Ore''} False [''Iron Ore'', ''Tree''])
   \<and> craft_ready
       (demo (clear_cell (6, 6) (clear_cell (5, 5) demo_grid)) (Some (6, 5)) (Some 0) 2 1
          {''Tree'', ''Iron Ore''} False [''Iron Ore'', ''Tree''])
   \<and> inventory (fst (step minigrid_step 4
       (demo (clear_cell (6, 6) (clear_cell (5, 5) demo_grid)) (Some (6, 5)) (Some 0) 2 1
          {''Tree'', ''Iron Ore''} False [''Iron Ore'', ''Tree'']))) = [''Iron Sword'']
   \<and> (\<exists>obs. snd (step minigrid_step 4
       (demo (clear_cell (6, 6) (clear_cell (5, 5) demo_grid)) (Some (6, 5)) (Some 0) 2 1
          {''Tree'', ''Iron Ore''} False [''Iron Ore'', ''Tree''])) = Inr (obs, 49, False, False))"
proof -
  let ?s = "demo (clear_cell (6, 6) (clear_cell (5, 5) demo_grid)) (Some (6, 5)) (Some 0) 2 1
          {''Tree'', ''Iron Ore''} False [''Iron Ore'', ''Tree'']"
  have r: "reachable minigrid_step ?s" using reach_demo5 by (rule reachable_demo)
  have c: "craft_ready ?s"
    by (simp add: craft_ready_def faces_demo clear_cell_sel demo_grid_dims demo_grid_cells demo_sel)
  have i: "inventory (fst (step minigrid_step 4 ?s)) = [''Iron Sword'']"
    by (simp add: run_craft return_obs_state demo_sel)
  from craft_sword_spec [OF minigrid_step_ok r] c i show ?thesis
    using minigrid_step_ok r by (simp add: demo_sel)
qed

text \<open>
  C2. When the agent faces the chest, an open\_chest step returns \<^verbatim>\<open>terminated = True\<close> if
  and only if "Iron Sword" is in the ledger; it then appends "Treasure" to the ledger
  and the step's reward is 999 (1000 plus the base \<open>-1\<close>).
\<close>

theorem open_chest_spec:
  assumes "engine_ok E" "reachable E s" "faces s (Box ''purple'')"
  shows "((\<exists>obs rw tr. snd (step E 5 s) = Inr (obs, rw, True, tr))
            = (''Iron Sword'' \<in> set (inventory s)))
    \<and> (''Iron Sword'' \<in> set (inventory s) \<longrightarrow>
          inventory (fst (step E 5 s)) = inventory s @ [''Treasure'']
        \<and> (\<exists>obs. snd (step E 5 s) = Inr (obs, 999, True, False)))"
proof -
  from faces_front [OF assms(3)] obtain p
    where fc: "front_cell (engine s) = Inr (p, Some (Box ''purple''))" by blast
  have box: "is_Box (Some (Box ''purple'')) ''purple''" by (simp add: is_Box_def)
  note w = world_ok_reachable [OF assms(1,2)]
  show ?thesis
  proof (cases "''Iron Sword'' \<in> set (inventory s)")
    case True
    let ?s' = "s\<lparr>inventory := inventory s @ [''Treasure'']\<rparr>"
    have st: "step E 5 s = return_obs ?s' 999 True False"
      using fc box True by (simp add: step_open)
    from return_obs_front [OF w fc, of ?s' 999 True False]
    obtain obs where "return_obs ?s' 999 True False = (?s', Inr (obs, 999, True, False))" by auto
    with st True show ?thesis by auto
  next
    case False
    have st: "step E 5 s = return_obs s (- 2) False False"
      using fc box False by (simp add: step_open)
    from return_obs_front [OF w fc, of s "- 2" False False]
    obtain obs where "return_obs s (- 2) False False = (s, Inr (obs, - 2, False, False))" by auto
    with st False show ?thesis by auto
  qed
qed

theorem open_chest_spec_witness:
  "engine_ok minigrid_step
   \<and> reachable minigrid_step
       (demo (clear_cell (6, 6) (clear_cell (5, 5) demo_grid)) (Some (6, 5)) (Some 3) 3 1
          {''Tree'', ''Iron Ore''} True [''Iron Sword''])
   \<and> faces (demo (clear_cell (6, 6) (clear_cell (5, 5) demo_grid)) (Some (6, 5)) (Some 3) 3 1
          {''Tree'', ''Iron Ore''} True [''Iron Sword'']) (Box ''purple'')
   \<and> inventory (fst (step minigrid_step 5
       (demo (clear_cell (6, 6) (clear_cell (5, 5) demo_grid)) (Some (6, 5)) (Some 3) 3 1
          {''Tree'', ''Iron Ore''} True [''Iron Sword'']))) = [''Iron Sword'', ''Treasure'']
   \<and> (\<exists>obs. snd (step minigrid_step 5
       (demo (clear_cell (6, 6) (clear_cell (5, 5) demo_grid)) (Some (6, 5)) (Some 3) 3 1
          {''Tree'', ''Iron Ore''} True [''Iron Sword''])) = Inr (obs, 999, True, False))"
proof -
  let ?s = "demo (clear_cell (6, 6) (clear_cell (5, 5) demo_grid)) (Some (6, 5)) (Some 3) 3 1
          {''Tree'', ''Iron Ore''} True [''Iron Sword'']"
  have r: "reachable minigrid_step ?s" using reach_demo7 by (rule reachable_demo)
  have f: "faces ?s (Box ''purple'')"
    by (simp add: faces_demo clear_cell_sel demo_grid_dims demo_grid_cells)
  from open_chest_spec [OF minigrid_step_ok r f] show ?thesis
    using minigrid_step_ok r f by (simp add: demo_sel)
qed

text \<open>
  C9. When the agent faces the crafting table and the craft preconditions fail, or faces
  the chest without "Iron Sword" in the ledger, the step returns normally with reward
  \<open>-2\<close>, not terminated, not truncated, and leaves the whole state (ledger, grid, flag,
  global record and all the rest) as it was.
\<close>

theorem failed_attempt_spec:
  assumes "engine_ok E" "reachable E s"
    and "(a = 4 \<and> faces s (Box ''blue'') \<and> \<not> craft_ready s)
       \<or> (a = 5 \<and> faces s (Box ''purple'') \<and> ''Iron Sword'' \<notin> set (inventory s))"
  shows "\<exists>obs. step E a s = (s, Inr (obs, - 2, False, False))"
proof -
  note w = world_ok_reachable [OF assms(1,2)]
  from assms(3) show ?thesis
  proof
    assume a: "a = 4 \<and> faces s (Box ''blue'') \<and> \<not> craft_ready s"
    then obtain p where fc: "front_cell (engine s) = Inr (p, Some (Box ''blue''))"
      using faces_front by blast
    have "step E 4 s = return_obs s (- 2) False False"
      using fc a by (auto simp: step_craft is_Box_def craft_ready_def)
    with return_obs_front [OF w fc, of s "- 2" False False] a show ?thesis by auto
  next
    assume a: "a = 5 \<and> faces s (Box ''purple'') \<and> ''Iron Sword'' \<notin> set (inventory s)"
    then obtain p where fc: "front_cell (engine s) = Inr (p, Some (Box ''purple''))"
      using faces_front by blast
    have "step E 5 s = return_obs s (- 2) False False"
      using fc a by (auto simp: step_open is_Box_def)
    with return_obs_front [OF w fc, of s "- 2" False False] a show ?thesis by auto
  qed
qed

theorem failed_attempt_spec_witness:
  "engine_ok minigrid_step
   \<and> reachable minigrid_step (demo demo_grid (Some (6, 5)) (Some 0) 0 1 {} False [])
   \<and> faces (demo demo_grid (Some (6, 5)) (Some 0) 0 1 {} False []) (Box ''blue'')
   \<and> \<not> craft_ready (demo demo_grid (Some (6, 5)) (Some 0) 0 1 {} False [])
   \<and> (\<exists>obs. step minigrid_step 4 (demo demo_grid (Some (6, 5)) (Some 0) 0 1 {} False [])
         = (demo demo_grid (Some (6, 5)) (Some 0) 0 1 {} False [], Inr (obs, - 2, False, False)))"
proof -
  let ?s = "demo demo_grid (Some (6, 5)) (Some 0) 0 1 {} False []"
  have r: "reachable minigrid_step ?s" using reach_demo1 [of minigrid_step 0] by (simp add: reachable_demo)
  have f: "faces ?s (Box ''blue'')" by (simp add: faces_demo demo_grid_dims demo_grid_cells)
  have c: "\<not> craft_ready ?s" by (simp add: craft_ready_def demo_sel)
  from failed_attempt_spec [OF minigrid_step_ok r, of 4] f c show ?thesis
    using minigrid_step_ok r by simp
qed

subsection \<open>The gate on collecting\<close>

text \<open>
  When the agent faces a resource, a toggle step is gated by the global record. If the
  kind is already in the record, the step changes nothing (the ledger gets no new entry
  and the object stays on the grid) and returns reward \<open>-2\<close>. If the kind is not yet in
  the record, the step adds it to the record, appends it to the ledger, clears the cell
  and returns reward \<open>0\<close>. After either step the kind is in the record for the rest of
  the process.
\<close>

lemma toggle_gated_by_record:
  assumes "engine_ok E" "reachable E s"
    and "front_cell (engine s) = Inr (p, Some (Resource color kind))"
  shows "(kind \<in> collected_resources_global s \<longrightarrow>
            (\<exists>obs. step E 3 s = (s, Inr (obs, - 2, False, False))))
    \<and> (kind \<notin> collected_resources_global s \<longrightarrow>
          (\<exists>obs. step E 3 s =
             (s\<lparr>collected_resources_global := insert kind (collected_resources_global s),
                inventory := inventory s @ [kind],
                engine := (engine s)\<lparr>grid := clear_cell p (grid (engine s))\<rparr>\<rparr>,
              Inr (obs, 0, False, False))))
    \<and> (\<forall>t. reach E (fst (step E 3 s)) t \<longrightarrow> kind \<in> collected_resources_global t)"
proof -
  note w = world_ok_reachable [OF assms(1,2)]
  note fc = assms(3)
  have res: "as_Resource (Some (Resource color kind)) = Some kind" by (simp add: as_Resource_def)
  have old: "\<exists>obs. step E 3 s = (s, Inr (obs, - 2, False, False))"
    if "kind \<in> collected_resources_global s"
  proof -
    have "step E 3 s = return_obs s (- 2) False False"
      using fc res that by (simp add: step_toggle)
    with return_obs_front [OF w fc, of s "- 2" False False] show ?thesis by auto
  qed
  let ?s' = "s\<lparr>collected_resources_global := insert kind (collected_resources_global s),
                inventory := inventory s @ [kind],
                engine := (engine s)\<lparr>grid := clear_cell p (grid (engine s))\<rparr>\<rparr>"
  have new: "\<exists>obs. step E 3 s = (?s', Inr (obs, 0, False, False))"
    if "kind \<notin> collected_resources_global s"
  proof -
    from front_cell_bounds [OF fc] have "in_bounds (grid (engine s)) p" by simp
    then have gs: "Grid_set (grid (engine s)) p None = Inr (clear_cell p (grid (engine s)))"
      by (simp add: Grid_set_def clear_cell_def)
    have st: "step E 3 s = return_obs ?s' 0 False False"
      using fc res that gs by (simp add: step_toggle)
    from front_cell_pos [OF fc] obtain a where "agent_pos (engine ?s') = Some a" by auto
    moreover have "grid_ok (grid (engine ?s'))"
      using w by (auto simp: world_ok_def grid_ok_def clear_cell_def)
    ultimately obtain obs where "return_obs ?s' 0 False False = (?s', Inr (obs, 0, False, False))"
      using return_obs_ok by blast
    with st show ?thesis by auto
  qed
  have "kind \<in> collected_resources_global (fst (step E 3 s))"
  proof (cases "kind \<in> collected_resources_global s")
    case True
    with old show ?thesis by auto
  next
    case False
    with new show ?thesis by auto
  qed
  then have "kind \<in> collected_resources_global t" if "reach E (fst (step E 3 s)) t" for t
    using reach_global_mono [OF that] by blast
  with old new show ?thesis by blast
qed

lemma run_toggle_again:
  "step E 3 (demo demo_grid (Some (6, 5)) (Some 2) 0 2 {''Iron Ore''} False []) =
     return_obs (demo demo_grid (Some (6, 5)) (Some 2) 0 2 {''Iron Ore''} False []) (- 2) False False"
  by (simp add: step_toggle demo_eval)

text \<open>
  What the gate does to the later episodes. A resource kind that is in the global record
  and not in the ledger never enters the ledger again; a \<^verbatim>\<open>reset\<close> empties the ledger and
  keeps the record. So once a tree or an iron ore has been collected, no state of any
  later episode is ready to craft, and after one crafted sword no later state of the
  process is: although \<^verbatim>\<open>_gen_grid\<close> places both resources again at every \<^verbatim>\<open>reset\<close>, the
  flag \<^verbatim>\<open>sword_crafted\<close> is cleared per episode, and the bonus is paid for a sword
  crafted within the first \<^verbatim>\<open>max_reward_episodes\<close> episodes.
\<close>

lemma spent_step:
  assumes "k \<in> set resource_names" "k \<in> collected_resources_global s" "k \<notin> set (inventory s)"
  shows "k \<in> collected_resources_global (fst (step E a s)) \<and> k \<notin> set (inventory (fst (step E a s)))"
proof -
  have "k \<in> collected_resources_global (fst (step E a s))"
    using step_global_mono [of s E a] assms(2) by blast
  moreover have "k \<notin> set (inventory (fst (step E a s)))"
  proof
    assume "k \<in> set (inventory (fst (step E a s)))"
    then have "count_list (inventory (fst (step E a s))) k \<noteq> 0" by (simp add: count_list_zero)
    moreover from assms(3) have "count_list (inventory s) k = 0" by (simp add: count_list_zero)
    ultimately have "count_list (inventory s) k < count_list (inventory (fst (step E a s))) k" by simp
    from step_append_gated [OF assms(1) this] assms(2) show False by simp
  qed
  ultimately show ?thesis by simp
qed

lemma spent_reach:
  assumes "reach E s t" "k \<in> set resource_names"
    "k \<in> collected_resources_global s" "k \<notin> set (inventory s)"
  shows "k \<in> collected_resources_global t \<and> k \<notin> set (inventory t)"
  using assms
proof (induction rule: reach.induct)
  case reach_refl
  then show ?case by simp
next
  case (reach_step t action)
  then show ?case using spent_step [of k t E action] by simp
next
  case (reach_reset t ds t' out)
  then show ?case using reset_frame [of ds t t' out] by simp
qed

lemma never_collected_again:
  assumes "k \<in> set resource_names" "k \<in> collected_resources_global s"
    "reset ds s = Some (s', out)" "reach E s' t"
  shows "k \<notin> set (inventory t)"
proof -
  from reset_frame [OF assms(3)] assms(2)
  have "k \<in> collected_resources_global s'" "k \<notin> set (inventory s')" by simp_all
  from spent_reach [OF assms(4,1) this] show ?thesis by simp
qed

lemma never_craft_again:
  assumes "''Tree'' \<in> collected_resources_global s \<or> ''Iron Ore'' \<in> collected_resources_global s"
    "reset ds s = Some (s', out)" "reach E s' t"
  shows "\<not> craft_ready t"
proof -
  have r: "''Tree'' \<in> set resource_names" "''Iron Ore'' \<in> set resource_names"
    by (simp_all add: resource_names_def)
  from assms(1) show ?thesis
  proof
    assume "''Tree'' \<in> collected_resources_global s"
    from never_collected_again [OF r(1) this assms(2,3)] show ?thesis by (simp add: craft_ready_def)
  next
    assume "''Iron Ore'' \<in> collected_resources_global s"
    from never_collected_again [OF r(2) this assms(2,3)] show ?thesis by (simp add: craft_ready_def)
  qed
qed

lemma one_craft_per_process:
  assumes "engine_ok E" "reachable E s" "craft_ready s" "reach E (fst (step E 4 s)) t"
  shows "\<not> craft_ready t"
proof -
  let ?s' = "s\<lparr>inventory := remove1 ''Iron Ore'' (remove1 ''Tree'' (inventory s)) @ [''Iron Sword''],
                sword_crafted := True\<rparr>"
  from assms(3) obtain p where fc: "front_cell (engine s) = Inr (p, Some (Box ''blue''))"
    and t: "''Tree'' \<in> set (inventory s)" "''Iron Ore'' \<in> set (inventory s)" "\<not> sword_crafted s"
    by (auto simp: craft_ready_def faces_def)
  from fc t have st: "fst (step E 4 s) = ?s'"
    by (simp add: step_craft is_Box_def return_obs_state)
  have l: "ledger_ok s" using assms(2) by (rule ledger_ok_reachable)
  have so: "sword_ok s" using assms(1,2) by (rule sword_ok_reachable)
  have r: "''Tree'' \<in> set resource_names" by (simp add: resource_names_def)
  from l t(1) r have "''Tree'' \<in> collected_resources_global s" by (auto simp: ledger_ok_def)
  then have a: "''Tree'' \<in> collected_resources_global ?s'" by simp
  from craft_result_ledger(1) [OF l so t(3) t(1,2)] have b: "''Tree'' \<notin> set (inventory ?s')" by simp
  from spent_reach [OF assms(4) [unfolded st] r a b] show ?thesis by (simp add: craft_ready_def)
qed

lemma never_craft_again_demo:
  "\<not> craft_ready (fst (step minigrid_step 3
       (demo demo_grid (Some (6, 5)) (Some 2) 0 2 {''Iron Ore''} False [])))"
proof -
  have r: "reset (demo_draws 2)
      (demo (clear_cell (5, 5) demo_grid) (Some (6, 5)) (Some 2) 0 1 {''Iron Ore''} False [''Iron Ore''])
    = Some (demo demo_grid (Some (6, 5)) (Some 2) 0 2 {''Iron Ore''} False [],
            get_obs (demo demo_grid (Some (6, 5)) (Some 2) 0 2 {''Iron Ore''} False []))"
    using reset_demo [of "Some (6, 5)" 2 "clear_cell (5, 5) demo_grid" "Some 2" 0 1 "{''Iron Ore''}"
        False "[''Iron Ore'']"]
    by simp
  have "''Tree'' \<in> collected_resources_global
          (demo (clear_cell (5, 5) demo_grid) (Some (6, 5)) (Some 2) 0 1 {''Iron Ore''} False [''Iron Ore''])
      \<or> ''Iron Ore'' \<in> collected_resources_global
          (demo (clear_cell (5, 5) demo_grid) (Some (6, 5)) (Some 2) 0 1 {''Iron Ore''} False [''Iron Ore''])"
    by (simp add: demo_sel)
  from never_craft_again [OF this r reach_step [OF reach_refl]] show ?thesis .
qed

text \<open>
  C3, at a failing input. In the second episode of the run the agent faces the iron ore
  that \<^verbatim>\<open>_gen_grid\<close> has placed again; its kind is in the global record since the first
  episode. The claim has the toggle append the kind to the ledger and remove the object
  from the grid, with reward \<open>-2\<close>. The step returns reward \<open>-2\<close>, but the ledger is
  still empty and the ore is still on the grid: the state is unchanged. The same toggle
  in the first episode, with the record empty, appends the kind and clears the cell.
\<close>

theorem toggle_collected_collects_nothing:
  "reachable minigrid_step (demo demo_grid (Some (6, 5)) (Some 2) 0 2 {''Iron Ore''} False [])
   \<and> faces (demo demo_grid (Some (6, 5)) (Some 2) 0 2 {''Iron Ore''} False [])
        (Resource ''red'' ''Iron Ore'')
   \<and> ''Iron Ore'' \<in> collected_resources_global
        (demo demo_grid (Some (6, 5)) (Some 2) 0 2 {''Iron Ore''} False [])
   \<and> inventory (demo demo_grid (Some (6, 5)) (Some 2) 0 2 {''Iron Ore''} False []) = []
   \<and> (\<exists>obs. step minigrid_step 3 (demo demo_grid (Some (6, 5)) (Some 2) 0 2 {''Iron Ore''} False [])
         = (demo demo_grid (Some (6, 5)) (Some 2) 0 2 {''Iron Ore''} False [],
            Inr (obs, - 2, False, False)))
   \<and> inventory (fst (step minigrid_step 3
        (demo demo_grid (Some (6, 5)) (Some 2) 0 2 {''Iron Ore''} False []))) = []
   \<and> cells (grid (engine (fst (step minigrid_step 3
        (demo demo_grid (Some (6, 5)) (Some 2) 0 2 {''Iron Ore''} False []))))) (5, 5)
      = Some (Resource ''red'' ''Iron Ore'')
   \<and> reachable minigrid_step (demo demo_grid (Some (6, 5)) (Some 2) 0 1 {} False [])
   \<and> inventory (fst (step minigrid_step 3
        (demo demo_grid (Some (6, 5)) (Some 2) 0 1 {} False []))) = [''Iron Ore'']
   \<and> cells (grid (engine (fst (step minigrid_step 3
        (demo demo_grid (Some (6, 5)) (Some 2) 0 1 {} False []))))) (5, 5) = None"
proof -
  let ?s = "demo demo_grid (Some (6, 5)) (Some 2) 0 2 {''Iron Ore''} False []"
  have r: "reachable minigrid_step ?s" using reach_demo9 by (rule reachable_demo)
  have r1: "reachable minigrid_step (demo demo_grid (Some (6, 5)) (Some 2) 0 1 {} False [])"
    using reach_demo1 [of minigrid_step 2] by (simp add: reachable_demo)
  have f: "front_cell (engine ?s) = Inr ((5, 5), Some (Resource ''red'' ''Iron Ore''))"
    by (simp add: demo_eval)
  from toggle_gated_by_record [OF minigrid_step_ok r f]
  have st: "\<exists>obs. step minigrid_step 3 ?s = (?s, Inr (obs, - 2, False, False))"
    by (simp add: demo_sel)
  with r r1 show ?thesis
    by (simp add: run_toggle_again run_toggle_ore return_obs_state faces_demo demo_grid_dims
        demo_grid_cells demo_sel clear_cell_sel)
qed

subsection \<open>The step counter, the start pose and the inventory observation\<close>

text \<open>
  C4, at a failing input. After the reset of the run with direction 0 the agent faces the
  crafting table with an empty ledger and the step counter at 0. The craft\_sword step
  returns reward \<open>-2\<close> and the step counter is still 0: the branch returns before
  \<^verbatim>\<open>super().step\<close>, the only place that counts. A turn from the same state, handled by
  the fall-through, counts.
\<close>

theorem step_count_not_incremented:
  "reachable minigrid_step (demo demo_grid (Some (6, 5)) (Some 0) 0 1 {} False [])
   \<and> step_count (engine (demo demo_grid (Some (6, 5)) (Some 0) 0 1 {} False [])) = 0
   \<and> (\<exists>obs. snd (step minigrid_step 4 (demo demo_grid (Some (6, 5)) (Some 0) 0 1 {} False []))
         = Inr (obs, - 2, False, False))
   \<and> step_count (engine (fst (step minigrid_step 4
        (demo demo_grid (Some (6, 5)) (Some 0) 0 1 {} False [])))) = 0
   \<and> step_count (engine (fst (step minigrid_step 0
        (demo demo_grid (Some (6, 5)) (Some 0) 0 1 {} False [])))) = 1"
proof -
  let ?s = "demo demo_grid (Some (6, 5)) (Some 0) 0 1 {} False []"
  have r: "reachable minigrid_step ?s"
    using reach_demo1 [of minigrid_step 0] by (simp add: reachable_demo)
  have f: "front_cell (engine ?s) = Inr ((7, 5), Some (Box ''blue''))" by (simp add: demo_eval)
  have st: "step minigrid_step 4 ?s = return_obs ?s (- 2) False False"
    by (simp add: step_craft demo_eval)
  from return_obs_front [OF world_ok_reachable [OF minigrid_step_ok r] f, of ?s "- 2" False False]
  obtain obs where "return_obs ?s (- 2) False False = (?s, Inr (obs, - 2, False, False))" by auto
  with st r show ?thesis
    by (simp add: run_turn demo_grid_dims demo_sel)
qed

text \<open>
  C8, at a failing input. On the default configuration the preferred start cell is
  (1, 1) with direction 0. In the run's reset that cell is empty once the objects are
  placed, and \<^verbatim>\<open>_gen_grid\<close> puts the agent there; \<^verbatim>\<open>reset\<close> then calls \<^verbatim>\<open>place_agent\<close>,
  which draws a cell and a direction, and the agent ends on (6, 5) facing direction 2.
\<close>

theorem reset_moves_agent_from_start:
  "init default_config = Inr demo_init
   \<and> agent_start_pos demo_init = Some (1, 1) \<and> agent_start_dir demo_init = 0
   \<and> gen_grid (demo (new_Grid 12 12) None None 0 1 {} False []) 12 12 (demo_draws 2)
       = Some (demo demo_grid (Some (1, 1)) (Some 0) 0 1 {} False [], Inr [6, 5, 2])
   \<and> cells demo_grid (1, 1) = None
   \<and> reset (demo_draws 2) demo_init
       = Some (demo demo_grid (Some (6, 5)) (Some 2) 0 1 {} False [],
               get_obs (demo demo_grid (Some (6, 5)) (Some 2) 0 1 {} False []))
   \<and> agent_pos (engine (demo demo_grid (Some (6, 5)) (Some 2) 0 1 {} False [])) = Some (6, 5)
   \<and> agent_dir (engine (demo demo_grid (Some (6, 5)) (Some 2) 0 1 {} False [])) = Some 2
   \<and> (\<exists>obs. get_obs (demo demo_grid (Some (6, 5)) (Some 2) 0 1 {} False []) = Inr obs)"
proof -
  have gg: "gen_grid (demo (new_Grid 12 12) None None 0 1 {} False []) 12 12 (demo_draws 2)
       = Some (demo demo_grid (Some (1, 1)) (Some 0) 0 1 {} False [], Inr [6, 5, 2])"
    unfolding gen_grid_def using place_demo [of None "new_Grid 12 12" None 0 1 "{}" False "[]" 2]
    by (simp add: gen_agent_def Grid_get_def in_bounds_def demo_grid_dims demo_grid_cells demo_def)
  have rs: "reset (demo_draws 2) demo_init
       = Some (demo demo_grid (Some (6, 5)) (Some 2) 0 1 {} False [],
               get_obs (demo demo_grid (Some (6, 5)) (Some 2) 0 1 {} False []))"
    using reset_demo [of None 2 "new_Grid 12 12" None 0 0 "{}" False "[]"]
    by (simp add: demo_init_def)
  have "reachable minigrid_step (demo demo_grid (Some (6, 5)) (Some 2) 0 1 {} False [])"
    using reach_demo1 [of minigrid_step 2] by (simp add: reachable_demo)
  from world_ok_reachable [OF minigrid_step_ok this]
  have "\<exists>obs. get_obs (demo demo_grid (Some (6, 5)) (Some 2) 0 1 {} False []) = Inr obs"
    using get_obs_ok [of "demo demo_grid (Some (6, 5)) (Some 2) 0 1 {} False []" "(6, 5)"]
    by (simp add: world_ok_def demo_sel)
  moreover have "agent_start_pos demo_init = Some (1, 1)" "agent_start_dir demo_init = 0"
    by (simp_all add: demo_init_def demo_def)
  ultimately show ?thesis using gg rs
    by (simp add: init_demo demo_sel demo_grid_cells)
qed

text \<open>
  C10. In every reachable state each entry of the inventory observation is 0 or 1 (so
  below the declared bound 10): entry \<open>j\<close> counts the ledger's occurrences of the
  \<open>j\<close>-th resource name, no resource name occurs twice in the ledger, a step raises
  the count of a resource name only when the name is not yet in the global record and
  puts it there, and "Iron Sword" and "Treasure" are not resource names.
\<close>

theorem inventory_obs_binary:
  assumes "reachable E s"
  shows "(\<forall>v\<in>set (get_inventory_observation s). (v = 0 \<or> v = 1) \<and> v < 10)
    \<and> length (get_inventory_observation s) = length resource_names
    \<and> (\<forall>j<length resource_names.
          get_inventory_observation s ! j = real (count_list (inventory s) (resource_names ! j)))
    \<and> (\<forall>k\<in>set resource_names. count_list (inventory s) k \<le> 1)
    \<and> (\<forall>k\<in>set resource_names. \<forall>a.
          count_list (inventory s) k < count_list (inventory (fst (step E a s))) k \<longrightarrow>
            k \<notin> collected_resources_global s
          \<and> k \<in> collected_resources_global (fst (step E a s)))
    \<and> ''Iron Sword'' \<notin> set resource_names \<and> ''Treasure'' \<notin> set resource_names"
proof -
  note l = ledger_ok_reachable [OF assms]
  have c: "\<forall>k\<in>set resource_names. count_list (inventory s) k \<le> 1"
    using l by (simp add: ledger_ok_def)
  have v: "(v = 0 \<or> v = 1) \<and> v < 10" if "v \<in> set (get_inventory_observation s)" for v
  proof -
    from that obtain j where j: "j < length resource_names" "v = get_inventory_observation s ! j"
      by (auto simp: in_set_conv_nth inventory_obs_nth(1))
    then have "v = real (count_list (inventory s) (resource_names ! j))"
      by (simp add: inventory_obs_nth(2))
    moreover have "count_list (inventory s) (resource_names ! j) \<le> 1" using c j(1) by simp
    ultimately show ?thesis by (cases "count_list (inventory s) (resource_names ! j)") auto
  qed
  have n: "''Iron Sword'' \<notin> set resource_names" "''Treasure'' \<notin> set resource_names"
    by (simp_all add: resource_names_def)
  show ?thesis using v c n inventory_obs_nth [where s = s] step_append_gated [where s = s and E = E]
    by blast
qed

theorem inventory_obs_binary_witness:
  "reachable minigrid_step
     (demo (clear_cell (6, 6) (clear_cell (5, 5) demo_grid)) (Some (6, 5)) (Some 1) 1 1
        {''Tree'', ''Iron Ore''} False [''Iron Ore'', ''Tree''])
   \<and> get_inventory_observation
       (demo (clear_cell (6, 6) (clear_cell (5, 5) demo_grid)) (Some (6, 5)) (Some 1) 1 1
        {''Tree'', ''Iron Ore''} False [''Iron Ore'', ''Tree'']) = [1, 0, 0, 0, 1, 0, 0, 0]
   \<and> count_list (inventory
       (demo (clear_cell (6, 6) (clear_cell (5, 5) demo_grid)) (Some (6, 5)) (Some 1) 1 1
        {''Tree'', ''Iron Ore''} False [''Iron Ore'', ''Tree''])) ''Tree'' \<le> 1"
proof -
  let ?s = "demo (clear_cell (6, 6) (clear_cell (5, 5) demo_grid)) (Some (6, 5)) (Some 1) 1 1
        {''Tree'', ''Iron Ore''} False [''Iron Ore'', ''Tree'']"
  have r: "reachable minigrid_step ?s" using reach_demo4 by (rule reachable_demo)
  have g: "get_inventory_observation ?s = [1, 0, 0, 0, 1, 0, 0, 0]"
    by (simp add: get_inventory_observation_def demo_sel resource_names_def list_index_def)
  have "''Tree'' \<in> set resource_names" by (simp add: resource_names_def)
  with inventory_obs_binary [OF r] g r show ?thesis by blast
qed

subsection \<open>The sensor\<close>

text \<open>
  C6 (as the code has it). For every beam the loop returns: if no cell qualifies, the
  beam encodes nothing; otherwise it encodes the kind and the distance of the first cell,
  in the order of the source's loops, among the qualifying cells at minimal distance.
  That order is \<open>x\<close> first, then \<open>y\<close>: whenever another qualifying cell is at the same
  distance as the encoded one, the encoded one has the smaller \<open>x\<close>, or the same \<open>x\<close> and
  the smaller \<open>y\<close>.
\<close>

theorem lidar_tie_break:
  assumes "lidar_beam g (Some a) angle (scan_order g) (None, - 1) = Inr acc"
  shows "sorted_wrt scan_before (scan_order g) \<and> set (scan_order g) = {c. in_bounds g c}
    \<and> (case first_nearest g a angle (scan_order g) of
          None \<Rightarrow> acc = (None, - 1) \<and> (\<forall>c\<in>set (scan_order g). \<not> hits g a angle c)
        | Some c \<Rightarrow>
            (\<exists>obj. cells g c = Some obj \<and> get_entity_index obj = Inr (snd acc))
          \<and> fst acc = Some (dist_to a c)
          \<and> hits g a angle c
          \<and> (\<forall>c'\<in>set (scan_order g). hits g a angle c' \<longrightarrow> dist_to a c \<le> dist_to a c')
          \<and> (\<forall>c'\<in>set (scan_order g).
                hits g a angle c' \<and> dist_to a c' = dist_to a c \<and> c' \<noteq> c \<longrightarrow> scan_before c c'))"
proof -
  from beam_result [OF assms] have
    "case first_nearest g a angle (scan_order g) of
          None \<Rightarrow> acc = (None, - 1) \<and> (\<forall>c\<in>set (scan_order g). \<not> hits g a angle c)
        | Some c \<Rightarrow>
            (\<exists>obj. cells g c = Some obj \<and> get_entity_index obj = Inr (snd acc))
          \<and> fst acc = Some (dist_to a c)
          \<and> hits g a angle c
          \<and> (\<forall>c'\<in>set (scan_order g). hits g a angle c' \<longrightarrow> dist_to a c \<le> dist_to a c')
          \<and> (\<forall>c'\<in>set (scan_order g).
                hits g a angle c' \<and> dist_to a c' = dist_to a c \<and> c' \<noteq> c \<longrightarrow> scan_before c c')"
  proof
    assume "first_nearest g a angle (scan_order g) = None \<and> acc = (None, - 1)
          \<and> (\<forall>c\<in>set (scan_order g). \<not> hits g a angle c)"
    then show ?thesis by simp
  next
    assume "\<exists>pre c post obj. scan_order g = pre @ c # post
          \<and> first_nearest g a angle (scan_order g) = Some c
          \<and> hits g a angle c \<and> cells g c = Some obj
          \<and> get_entity_index obj = Inr (snd acc) \<and> fst acc = Some (dist_to a c)
          \<and> (\<forall>c'\<in>set pre. hits g a angle c' \<longrightarrow> dist_to a c < dist_to a c')
          \<and> (\<forall>c'\<in>set post. hits g a angle c' \<longrightarrow> dist_to a c \<le> dist_to a c')"
    then obtain pre c post obj where w: "scan_order g = pre @ c # post"
        "first_nearest g a angle (scan_order g) = Some c" "hits g a angle c"
        "cells g c = Some obj" "get_entity_index obj = Inr (snd acc)" "fst acc = Some (dist_to a c)"
        "\<forall>c'\<in>set pre. hits g a angle c' \<longrightarrow> dist_to a c < dist_to a c'"
        "\<forall>c'\<in>set post. hits g a angle c' \<longrightarrow> dist_to a c \<le> dist_to a c'"
      by blast
    have srt: "sorted_wrt scan_before (pre @ c # post)" using scan_order_sorted [of g] w(1) by simp
    have le: "dist_to a c \<le> dist_to a c'" if "c' \<in> set (scan_order g)" "hits g a angle c'" for c'
      using that w(1,7,8) by (auto intro: less_imp_le)
    have tie: "scan_before c c'"
      if "c' \<in> set (scan_order g)" "hits g a angle c'" "dist_to a c' = dist_to a c" "c' \<noteq> c" for c'
    proof -
      from that(2,3) w(7) have "c' \<notin> set pre" by auto
      with that(1,4) w(1) have "c' \<in> set post" by auto
      with srt show ?thesis by (auto simp: sorted_wrt_append)
    qed
    from w le tie show ?thesis by auto
  qed
  then show ?thesis using scan_order_sorted [of g] scan_order_set [of g] by simp
qed

theorem lidar_tie_break_witness:
  "lidar_beam demo_grid (Some (5, 4)) (angles ! Suc 0) (scan_order demo_grid) (None, - 1)
     = Inr (Some (sqrt 5), 4)
   \<and> first_nearest demo_grid (5, 4) (angles ! Suc 0) (scan_order demo_grid) = Some (6, 6)
   \<and> hits demo_grid (5, 4) (angles ! Suc 0) (7, 5)
   \<and> dist_to (5, 4) (7, 5) = dist_to (5, 4) (6, 6)
   \<and> scan_before (6, 6) (7, 5)"
proof -
  have h: "hits demo_grid (5, 4) (angles ! Suc 0) (7, 5)" "dist_to (5, 4) (7, 5) = dist_to (5, 4) (6, 6)"
    "(7, 5) \<in> set (scan_order demo_grid)"
    by (simp_all add: beam_eval scan_order_set in_bounds_def demo_grid_dims)
  from lidar_tie_break [OF beam1_demo] h show ?thesis
    by (simp add: nearest_scan_demo beam1_demo)
qed

text \<open>
  C6 as the claim states it fails. The agent stands on (5, 4) of the run's grid. In the
  beam at 45 degrees the tree on (6, 6) and the crafting table on (7, 5) qualify at the
  same minimal distance \<open>\<surd>5\<close>. The first of the two in the row-major enumeration (row 5
  before row 6) is the crafting table, kind 6; the beam encodes kind 4, the tree, which
  the loops reach first (column 6 before column 7).
\<close>

theorem lidar_row_major_counterexample:
  "reachable minigrid_step (demo demo_grid (Some (5, 4)) (Some 0) 0 1 {} False [])
   \<and> first_nearest demo_grid (5, 4) (angles ! Suc 0) (row_major demo_grid) = Some (7, 5)
   \<and> cells demo_grid (7, 5) = Some (Box ''blue'')
   \<and> get_entity_index (Box ''blue'') = Inr 6
   \<and> hits demo_grid (5, 4) (angles ! Suc 0) (6, 6)
   \<and> dist_to (5, 4) (6, 6) = dist_to (5, 4) (7, 5)
   \<and> cells demo_grid (6, 6) = Some (Resource ''green'' ''Tree'')
   \<and> get_entity_index (Resource ''green'' ''Tree'') = Inr 4
   \<and> lidar_beam demo_grid (Some (5, 4)) (angles ! Suc 0) (scan_order demo_grid) (None, - 1)
       = Inr (Some (sqrt 5), 4)"
proof -
  have "reachable minigrid_step (demo demo_grid (Some (5, 4)) (Some 0) 0 1 {} False [])"
    using reachable_demo_at [of 5 4 minigrid_step 0] by (simp add: demo_grid_cells)
  then show ?thesis
    by (simp add: nearest_row_demo beam1_demo) (simp add: beam_eval)
qed





end
